theory Spec2Isabelle
  imports Complex_Main "HOL-Library.Multiset" "HOL-Library.AList" "HOL-Library.Word"
begin

unbundle bit_operations_syntax

section \<open>JavaScript values used by the algorithms\<close>

text \<open>
  A JavaScript \<open>number\<close> is an IEEE 754 double. \<open>double\<close> holds every number other than
  \<open>NaN\<close>: a finite double is the rational it denotes (\<open>-0\<close> is the rational 0: the two
  zeros compare equal, and a sum is \<open>-0\<close> only when both operands are), and there are
  \<open>Infinity\<close> and \<open>-Infinity\<close>. Where the source may read \<open>undefined\<close> (a missing array
  element, a missing \<open>Map\<close> key) or compute \<open>NaN\<close>, the value is an \<open>option\<close> and \<open>None\<close>
  stands for \<open>undefined\<close>/\<open>NaN\<close>: every comparison with it is false, as in JavaScript.
\<close>

datatype double = Finite rat | PosInf | NegInf

instantiation double :: linorder
begin

fun less_eq_double :: "double \<Rightarrow> double \<Rightarrow> bool" where
  "less_eq_double NegInf _ = True"
| "less_eq_double (Finite a) NegInf = False"
| "less_eq_double (Finite a) (Finite b) = (a \<le> b)"
| "less_eq_double (Finite a) PosInf = True"
| "less_eq_double PosInf NegInf = False"
| "less_eq_double PosInf (Finite b) = False"
| "less_eq_double PosInf PosInf = True"

definition less_double :: "double \<Rightarrow> double \<Rightarrow> bool" where
  "less_double x y = (x \<le> y \<and> \<not> y \<le> (x::double))"

instance
proof
  fix x y z :: double
  show "(x < y) = (x \<le> y \<and> \<not> y \<le> x)" by (simp add: less_double_def)
  show "x \<le> x" by (cases x) auto
  show "x \<le> y \<Longrightarrow> y \<le> z \<Longrightarrow> x \<le> z" by (cases x; cases y; cases z) auto
  show "x \<le> y \<Longrightarrow> y \<le> x \<Longrightarrow> x = y" by (cases x; cases y) auto
  show "x \<le> y \<or> y \<le> x" by (cases x; cases y) auto
qed

end

text \<open>
  The sum of two finite doubles is their exact sum rounded to the nearest double, a tie
  going to the double with an even significand (the default, and in JavaScript the only,
  rounding mode). \<open>round_double x\<close> is that rounding of a rational \<open>x\<close>: with \<open>e\<close> the
  exponent of \<open>x\<close> (\<open>2^e \<le> |x| < 2^(e+1)\<close>, and at least \<open>-1022\<close>, below which the spacing no
  longer shrinks), the doubles near \<open>x\<close> are the multiples of \<open>2^(e-52)\<close>; a result of
  magnitude \<open>2^1024\<close> or more is \<open>Infinity\<close> or \<open>-Infinity\<close>.
\<close>

definition pow2 :: "int \<Rightarrow> rat" where
  "pow2 e = (if 0 \<le> e then 2 ^ nat e else 1 / 2 ^ nat (- e))"

definition round_even :: "rat \<Rightarrow> int" where
  "round_even x =
     (let f = \<lfloor>x\<rfloor>; d = x - of_int f
      in if d < 1 / 2 then f else if 1 / 2 < d then f + 1 else if even f then f else f + 1)"

text \<open>
  The exponent of a positive rational \<open>a / b\<close>, from the numbers of binary digits of
  \<open>a\<close> and \<open>b\<close>.
\<close>

function bit_length :: "int \<Rightarrow> nat" where
  "bit_length n = (if n \<le> 0 then 0 else Suc (bit_length (n div 2)))"
  by pat_completeness auto
termination
  by (relation "measure nat") auto

declare bit_length.simps [simp del]

definition floor_log2 :: "rat \<Rightarrow> int" where
  "floor_log2 x =
     (let (a, b) = quotient_of x;
          k = int (bit_length a) - int (bit_length b)
      in if pow2 k \<le> x then k else k - 1)"

definition round_double :: "rat \<Rightarrow> double" where
  "round_double x =
     (if x = 0 then Finite 0
      else
        (let e = max (floor_log2 \<bar>x\<bar>) (- 1022);
             q = pow2 (e - 52);
             r = of_int (round_even (x / q)) * q
         in if 2 ^ 1024 \<le> \<bar>r\<bar> then (if 0 < x then PosInf else NegInf) else Finite r))"

text \<open>\<open>a + b\<close> on numbers: \<open>Infinity + -Infinity\<close> is \<open>NaN\<close>.\<close>

fun dadd :: "double \<Rightarrow> double \<Rightarrow> double option" where
  "dadd (Finite a) (Finite b) = Some (round_double (a + b))"
| "dadd (Finite a) PosInf = Some PosInf"
| "dadd (Finite a) NegInf = Some NegInf"
| "dadd PosInf (Finite b) = Some PosInf"
| "dadd PosInf PosInf = Some PosInf"
| "dadd PosInf NegInf = None"
| "dadd NegInf (Finite b) = Some NegInf"
| "dadd NegInf PosInf = None"
| "dadd NegInf NegInf = Some NegInf"

text \<open>\<open>a > b\<close> and \<open>a + b\<close> on operands that may be \<open>undefined\<close> or \<open>NaN\<close>.\<close>

definition js_gt :: "double option \<Rightarrow> double option \<Rightarrow> bool" where
  "js_gt a b = (case (a, b) of (Some x, Some y) \<Rightarrow> y < x | _ \<Rightarrow> False)"

definition js_add :: "double option \<Rightarrow> double option \<Rightarrow> double option" where
  "js_add a b = (case (a, b) of (Some x, Some y) \<Rightarrow> dadd x y | _ \<Rightarrow> None)"

text \<open>
  The scores that \<open>astarGrid\<close> compares are integers (sums of 1 and of coordinate
  differences), and its running minimum starts at \<open>Infinity\<close>: \<open>num\<close> is an integer or
  \<open>Infinity\<close>.
\<close>

datatype num = Fin int | Infinity

instantiation num :: linorder
begin

fun less_eq_num :: "num \<Rightarrow> num \<Rightarrow> bool" where
  "less_eq_num (Fin a) (Fin b) = (a \<le> b)"
| "less_eq_num _ Infinity = True"
| "less_eq_num Infinity (Fin b) = False"

definition less_num :: "num \<Rightarrow> num \<Rightarrow> bool" where
  "less_num x y = (x \<le> y \<and> \<not> y \<le> (x::num))"

instance
proof
  fix x y z :: num
  show "(x < y) = (x \<le> y \<and> \<not> y \<le> x)" by (simp add: less_num_def)
  show "x \<le> x" by (cases x) auto
  show "x \<le> y \<Longrightarrow> y \<le> z \<Longrightarrow> x \<le> z" by (cases x; cases y; cases z) auto
  show "x \<le> y \<Longrightarrow> y \<le> x \<Longrightarrow> x = y" by (cases x; cases y) auto
  show "x \<le> y \<or> y \<le> x" by (cases x; cases y) auto
qed

end

text \<open>
  Reading element \<open>i\<close> of an array the caller passed in (a list): \<open>undefined\<close> outside
  \<open>0..length-1\<close>.
\<close>

definition js_index :: "'a list \<Rightarrow> int \<Rightarrow> 'a option" where
  "js_index xs i = (if 0 \<le> i \<and> i < int (length xs) then Some (xs ! nat i) else None)"

text \<open>
  An array the algorithm allocates itself (\<open>new Array(n).fill(c)\<close>) and then reads and
  writes by index is a partial map from the index: a missing index reads \<open>undefined\<close>,
  and a write at any index succeeds, as in JavaScript.
\<close>

definition new_array :: "nat \<Rightarrow> 'a \<Rightarrow> (int \<rightharpoonup> 'a)" where
  "new_array n c = (\<lambda>i. if 0 \<le> i \<and> i < int n then Some c else None)"

datatype error = TypeError

section \<open>MinHeap (src/dijkstra.ts, lines 2-34)\<close>

text \<open>
  \<open>data\<close> is the array of \<open>{key, val}\<close> entries. The indices the loops read are in range
  by the loops' own guards; they stay below \<open>2^31\<close>, where \<open>(i - 1) >> 1\<close> is
  \<open>(i - 1) div 2\<close>.
\<close>

type_synonym 'a heap = "(double \<times> 'a) list"

definition swap :: "'a list \<Rightarrow> nat \<Rightarrow> nat \<Rightarrow> 'a list" where
  "swap d i j = d[i := d ! j, j := d ! i]"

definition size_heap :: "'a heap \<Rightarrow> nat" where
  "size_heap d = length d"

text \<open>The loop of \<open>push\<close> (lines 8-13), from the index \<open>i\<close> of the new entry.\<close>

function sift_up :: "'a heap \<Rightarrow> nat \<Rightarrow> 'a heap" where
  "sift_up d i =
     (if 0 < i then
        (let p = (i - 1) div 2 in
         if fst (d ! p) \<le> fst (d ! i) then d
         else sift_up (swap d p i) p)
      else d)"
  by pat_completeness auto
termination
  by (relation "measure (\<lambda>(d, i). i)") auto

declare sift_up.simps [simp del]

definition push :: "double \<Rightarrow> 'a \<Rightarrow> 'a heap \<Rightarrow> 'a heap" where
  "push k v d = sift_up (d @ [(k, v)]) (length d)"

text \<open>The loop of \<open>pop\<close> (lines 22-30), from index \<open>i\<close>.\<close>

function sift_down :: "'a heap \<Rightarrow> nat \<Rightarrow> 'a heap" where
  "sift_down d i =
     (let l = i * 2 + 1; r = i * 2 + 2;
          smallest = i;
          smallest = (if l < length d \<and> fst (d ! l) < fst (d ! smallest) then l else smallest);
          smallest = (if r < length d \<and> fst (d ! r) < fst (d ! smallest) then r else smallest)
      in if smallest = i then d
         else sift_down (swap d i smallest) smallest)"
  by pat_completeness auto
termination
  by (relation "measure (\<lambda>(d, i). length d - i)")
     (auto simp: swap_def split: if_splits)

declare sift_down.simps [simp del]

text \<open>
  \<open>pop\<close> returns the entry (or \<open>null\<close>, here \<open>None\<close>) together with the array it
  leaves behind.
\<close>

definition pop :: "'a heap \<Rightarrow> (double \<times> 'a) option \<times> 'a heap" where
  "pop d =
     (if length d = 0 then (None, d)
      else
        (let res = d ! 0;
             last = d ! (length d - 1);
             d1 = butlast d
         in if length d1 > 0 then (Some res, sift_down (d1[0 := last]) 0)
            else (Some res, d1)))"

section \<open>dijkstra (src/dijkstra.ts, lines 35-54)\<close>

text \<open>
  The state of a run: the caller's adjacency array, the distance table and the queue.
  An edge is the pair \<open>(v, w)\<close> of the target node and a weight, a number other than
  \<open>NaN\<close>.
\<close>

record dstate =
  adj :: "(int \<times> double) list list"
  dist :: "int \<rightharpoonup> double"
  pq :: "int heap"

text \<open>
  The \<open>for\<close> loop over \<open>adj[u]\<close> (lines 46-51). \<open>dist[v] > dist[u] + w\<close> is false when
  \<open>dist[v]\<close> is \<open>undefined\<close> (a target outside the table), so such an edge is skipped.
\<close>

fun relax :: "int \<Rightarrow> (int \<times> double) list \<Rightarrow> dstate \<Rightarrow> dstate" where
  "relax u [] s = s"
| "relax u ((v, w) # es) s =
     relax u es
       (if js_gt (dist s v) (js_add (dist s u) (Some w)) then
          (case js_add (dist s u) (Some w) of
             Some dv \<Rightarrow> s\<lparr>dist := (dist s)(v \<mapsto> dv), pq := push dv v (pq s)\<rparr>
           | None \<Rightarrow> s)
        else s)"

text \<open>
  The \<open>while\<close> loop (lines 41-52), as a partial function: \<open>None\<close> would be a run that
  never returns, and that the loop returns on every input is proved below.
  \<open>for (... of adj[u])\<close> throws a \<open>TypeError\<close> when \<open>adj[u]\<close> is \<open>undefined\<close>.
\<close>

partial_function (option) dijkstra_loop :: "dstate \<Rightarrow> (error + dstate) option" where
  "dijkstra_loop s =
     (if size_heap (pq s) = 0 then Some (Inr s)
      else
        (case pop (pq s) of
           (None, h) \<Rightarrow> Some (Inl TypeError)
         | (Some (d, u), h) \<Rightarrow>
             (let s1 = s\<lparr>pq := h\<rparr> in
              if js_gt (Some d) (dist s1 u) then dijkstra_loop s1
              else
                (case js_index (adj s1) u of
                   None \<Rightarrow> Some (Inl TypeError)
                 | Some es \<Rightarrow> dijkstra_loop (relax u es s1)))))"

declare dijkstra_loop.simps [code]

definition dijkstra_init :: "(int \<times> double) list list \<Rightarrow> int \<Rightarrow> dstate" where
  "dijkstra_init a src =
     (let n = length a;
          dist0 = new_array n PosInf;
          dist1 = dist0(src \<mapsto> Finite 0)
      in \<lparr>adj = a, dist = dist1, pq = push (Finite 0) src []\<rparr>)"

text \<open>The run with its final state, and the function as the caller sees it.\<close>

definition dijkstra_run :: "(int \<times> double) list list \<Rightarrow> int \<Rightarrow> (error + dstate) option" where
  "dijkstra_run a src = dijkstra_loop (dijkstra_init a src)"

definition dijkstra ::
    "(int \<times> double) list list \<Rightarrow> int \<Rightarrow> (error + (int \<rightharpoonup> double)) option" where
  "dijkstra a src = map_option (map_sum id dist) (dijkstra_run a src)"

section \<open>LCA (src/LCA.ts, lines 2-42)\<close>

text \<open>
  The object: its fields \<open>n\<close>, \<open>LOG\<close>, \<open>up\<close>, \<open>depth\<close> and \<open>adj\<close>. \<open>up\<close> is an array of
  \<open>LOG\<close> rows; a row and \<open>depth\<close> are arrays indexed by the node.
\<close>

record lca =
  lca_n :: nat
  lca_LOG :: nat
  lca_up :: "(int \<rightharpoonup> int) list"
  lca_depth :: "int \<rightharpoonup> int"
  lca_adj :: "int list list"

text \<open>
  \<open>Math.ceil(Math.log2(m))\<close>, taken exactly: the least \<open>k\<close> with \<open>m \<le> 2^k\<close>.
\<close>

fun ceil_log2 :: "nat \<Rightarrow> nat" where
  "ceil_log2 m = (if m \<le> 1 then 0 else Suc (ceil_log2 ((m + 1) div 2)))"

declare ceil_log2.simps [simp del]

text \<open>Lines 9-13 of the constructor: the fields before the traversal.\<close>

definition lca_alloc :: "int list list \<Rightarrow> lca" where
  "lca_alloc a =
     (let n = length a;
          LOG = ceil_log2 (max 2 n)
      in \<lparr>lca_n = n, lca_LOG = LOG,
          lca_up = replicate LOG (new_array n (- 1)),
          lca_depth = new_array n 0,
          lca_adj = a\<rparr>)"

text \<open>\<open>this.up[0][u] = p\<close> (line 23).\<close>

definition set_parent :: "int \<Rightarrow> int \<Rightarrow> lca \<Rightarrow> lca" where
  "set_parent u p t = t\<lparr>lca_up := (lca_up t)[0 := (lca_up t ! 0)(u \<mapsto> p)]\<rparr>"

text \<open>
  \<open>this.depth[v] = this.depth[u] + 1\<close> (line 25); the sum is \<open>NaN\<close> when \<open>depth[u]\<close> is
  \<open>undefined\<close>.
\<close>

definition set_depth :: "int \<Rightarrow> int \<Rightarrow> lca \<Rightarrow> lca" where
  "set_depth v u t = t\<lparr>lca_depth := (lca_depth t)(v := map_option (\<lambda>d. d + 1) (lca_depth t u))\<rparr>"

text \<open>
  \<open>dfs\<close> (lines 22-28) recurses once for each child, inside its \<open>for\<close> loop. \<open>dfs_loop u p vs\<close>
  is that loop of \<open>dfs(u, p)\<close> with \<open>vs\<close> the elements of \<open>adj[u]\<close> still to visit; the call
  \<open>dfs(v, u)\<close> in its body is line 23 followed by the loop over \<open>adj[v]\<close>, and a
  \<open>TypeError\<close> when \<open>adj[v]\<close> is \<open>undefined\<close>. On a graph with a cycle the recursion does not
  end (in JavaScript, until the call stack is exhausted): the value \<open>None\<close>.
\<close>

partial_function (option) dfs_loop :: "int \<Rightarrow> int \<Rightarrow> int list \<Rightarrow> lca \<Rightarrow> (error + lca) option" where
  "dfs_loop u p vs t =
     (case vs of
        [] \<Rightarrow> Some (Inr t)
      | v # vs' \<Rightarrow>
          if v \<noteq> p then
            (let t1 = set_depth v u t;
                 t2 = set_parent v u t1
             in case js_index (lca_adj t2) v of
                  None \<Rightarrow> Some (Inl TypeError)
                | Some cs \<Rightarrow>
                    Option.bind (dfs_loop v u cs t2)
                      (\<lambda>r. case r of
                             Inl e \<Rightarrow> Some (Inl e)
                           | Inr t3 \<Rightarrow> dfs_loop u p vs' t3))
          else dfs_loop u p vs' t)"

declare dfs_loop.simps [code]

definition dfs :: "int \<Rightarrow> int \<Rightarrow> lca \<Rightarrow> (error + lca) option" where
  "dfs u p t =
     (let t1 = set_parent u p t
      in case js_index (lca_adj t1) u of
           None \<Rightarrow> Some (Inl TypeError)
         | Some cs \<Rightarrow> dfs_loop u p cs t1)"

text \<open>
  Lines 15-20. \<open>fill_entry prev v\<close> is the value stored in \<open>up[k][v]\<close>, from the row
  \<open>prev = up[k - 1]\<close>; \<open>up[k - 1][mid]\<close> is \<open>undefined\<close> when \<open>mid\<close> is.
\<close>

definition fill_entry :: "(int \<rightharpoonup> int) \<Rightarrow> int \<Rightarrow> int option" where
  "fill_entry prev v =
     (case prev v of
        None \<Rightarrow> None
      | Some mid \<Rightarrow> if mid = - 1 then Some (- 1) else prev mid)"

definition fill_row :: "nat \<Rightarrow> (int \<rightharpoonup> int) \<Rightarrow> (int \<rightharpoonup> int) \<Rightarrow> (int \<rightharpoonup> int)" where
  "fill_row n prev row = fold (\<lambda>v r. r(int v := fill_entry prev (int v))) [0..<n] row"

definition fill_level :: "nat \<Rightarrow> lca \<Rightarrow> lca" where
  "fill_level k t =
     t\<lparr>lca_up := (lca_up t)[k := fill_row (lca_n t) (lca_up t ! (k - 1)) (lca_up t ! k)]\<rparr>"

definition fill_table :: "lca \<Rightarrow> lca" where
  "fill_table t = fold fill_level [1..<lca_LOG t] t"

text \<open>The constructor: \<open>new LCA(adj, root)\<close>.\<close>

definition LCA_new :: "int list list \<Rightarrow> int \<Rightarrow> (error + lca) option" where
  "LCA_new a rt =
     (case dfs rt rt (lca_alloc a) of
        None \<Rightarrow> None
      | Some (Inl e) \<Rightarrow> Some (Inl e)
      | Some (Inr t) \<Rightarrow> Some (Inr (fill_table t)))"

text \<open>
  \<open>query\<close> (lines 29-41). Its variables \<open>u\<close> and \<open>v\<close> may come to hold \<open>undefined\<close>, and
  \<open>diff\<close> may be \<open>NaN\<close>. \<open>diff & (1 << k)\<close> works on 32-bit integers: \<open>diff\<close> is reduced
  modulo \<open>2^32\<close> (\<open>NaN\<close> to 0) and the shift count modulo 32.
\<close>

definition js_lt :: "int option \<Rightarrow> int option \<Rightarrow> bool" where
  "js_lt a b = (case (a, b) of (Some x, Some y) \<Rightarrow> x < y | _ \<Rightarrow> False)"

definition js_sub :: "int option \<Rightarrow> int option \<Rightarrow> int option" where
  "js_sub a b = (case (a, b) of (Some x, Some y) \<Rightarrow> Some (x - y) | _ \<Rightarrow> None)"

definition js_bit_and_shl :: "int option \<Rightarrow> nat \<Rightarrow> bool" where
  "js_bit_and_shl diff k =
     (case diff of
        None \<Rightarrow> False
      | Some d \<Rightarrow> (word_of_int d :: 32 word) AND push_bit (k mod 32) 1 \<noteq> 0)"

text \<open>\<open>this.up[k][x]\<close> for \<open>k < LOG\<close>.\<close>

definition up_at :: "lca \<Rightarrow> nat \<Rightarrow> int option \<Rightarrow> int option" where
  "up_at t k x = (case x of None \<Rightarrow> None | Some i \<Rightarrow> (lca_up t ! k) i)"

definition depth_at :: "lca \<Rightarrow> int option \<Rightarrow> int option" where
  "depth_at t x = (case x of None \<Rightarrow> None | Some i \<Rightarrow> lca_depth t i)"

definition lift :: "lca \<Rightarrow> int option \<Rightarrow> int option \<Rightarrow> int option" where
  "lift t diff u =
     fold (\<lambda>k u. if js_bit_and_shl diff k then up_at t k u else u) [0..<lca_LOG t] u"

definition climb :: "lca \<Rightarrow> int option \<times> int option \<Rightarrow> int option \<times> int option" where
  "climb t uv =
     fold (\<lambda>k (u, v). if up_at t k u \<noteq> up_at t k v then (up_at t k u, up_at t k v) else (u, v))
       (rev [0..<lca_LOG t]) uv"

text \<open>
  The result of \<open>query(u, v)\<close>, paired with the object as the call leaves it: no statement
  of \<open>query\<close> assigns to a field.
\<close>

definition query :: "lca \<Rightarrow> int \<Rightarrow> int \<Rightarrow> int option \<times> lca" where
  "query t u0 v0 =
     (let (u, v) = (if js_lt (lca_depth t u0) (lca_depth t v0) then (v0, u0) else (u0, v0));
          diff = js_sub (lca_depth t u) (lca_depth t v);
          u1 = lift t diff (Some u)
      in if u1 = Some v then (u1, t)
         else
           (let (u2, v2) = climb t (u1, Some v)
            in (up_at t 0 u2, t)))"

section \<open>astarGrid (src/LCA.ts, lines 44-90)\<close>

text \<open>
  A cell is the pair \<open>(x, y)\<close> of its row and column. The source keys its three \<open>Map\<close>s by
  the string \<open>key(x, y)\<close> and reads the coordinates back with \<open>split(',').map(Number)\<close>;
  on integers the two are inverse to each other, and the model keys the maps by the cell.
  \<open>open\<close> is kept as the list of its entries in insertion order, which is the order the
  scan for the minimum follows: \<open>Map.set\<close> replaces the value of a key in place or appends a
  new key, \<open>Map.delete\<close> removes the entry.
\<close>

type_synonym cell = "int \<times> int"

record astate =
  grid :: "int list list"
  open_map :: "(cell \<times> int) list"
  gScore :: "cell \<rightharpoonup> int"
  parent :: "cell \<rightharpoonup> cell option"

definition inBounds :: "nat \<Rightarrow> nat \<Rightarrow> int \<Rightarrow> int \<Rightarrow> bool" where
  "inBounds R C x y = (x \<ge> 0 \<and> y \<ge> 0 \<and> x < int R \<and> y < int C)"

definition h :: "cell \<Rightarrow> cell \<Rightarrow> int" where
  "h goal c = \<bar>fst c - fst goal\<bar> + \<bar>snd c - snd goal\<bar>"

definition dirs :: "(int \<times> int) list" where
  "dirs = [(1, 0), (- 1, 0), (0, 1), (0, - 1)]"

text \<open>
  Lines 59-61: the scan of \<open>open\<close> for the first entry of least \<open>f\<close>, from
  \<open>curKey = null\<close> and \<open>curF = Infinity\<close>.
\<close>

definition scan_open :: "(cell \<times> int) list \<Rightarrow> cell option \<times> num" where
  "scan_open entries =
     fold (\<lambda>(k, f) (curKey, curF). if Fin f < curF then (Some k, Fin f) else (curKey, curF))
       entries (None, Infinity)"

text \<open>
  Lines 66-74: the walk along the \<open>parent\<close> links from \<open>p\<close>, appending to \<open>path\<close>.
  \<open>parent.get(p) ?? null\<close> is \<open>null\<close> for a missing key. The loop runs for ever on a cycle
  of links: the value \<open>None\<close>.
\<close>

partial_function (option) reconstruct ::
    "(cell \<rightharpoonup> cell option) \<Rightarrow> cell option \<Rightarrow> cell list \<Rightarrow> cell list option" where
  "reconstruct par p path =
     (case p of
        None \<Rightarrow> Some path
      | Some c \<Rightarrow> reconstruct par (case par c of None \<Rightarrow> None | Some q \<Rightarrow> q) (path @ [c]))"

declare reconstruct.simps [code]

text \<open>
  Lines 78-86: one direction \<open>(dx, dy)\<close> of the \<open>for\<close> loop over \<open>dirs\<close>, for the cell
  \<open>cur\<close> whose score \<open>gCur\<close> was read at line 76 (\<open>undefined\<close> for a missing key, and then
  \<open>tentativeG\<close> is \<open>NaN\<close>). \<open>grid[nx]\<close> is read only when \<open>0 \<le> nx < R\<close>; \<open>grid[nx][ny]\<close>
  is \<open>undefined\<close>, and so not \<open>1\<close>, beyond the end of a short row.
\<close>

definition expand :: "nat \<Rightarrow> nat \<Rightarrow> cell \<Rightarrow> cell \<Rightarrow> int option \<Rightarrow> int \<times> int \<Rightarrow> astate \<Rightarrow> astate" where
  "expand R C goal cur gCur d s =
     (let nx = fst cur + fst d; ny = snd cur + snd d
      in if \<not> inBounds R C nx ny \<or> js_index (grid s ! nat nx) ny = Some 1 then s
         else
           (let nk = (nx, ny);
                tentativeG = map_option (\<lambda>g. g + 1) gCur
            in case tentativeG of
                 None \<Rightarrow> s
               | Some tg \<Rightarrow>
                   if (case gScore s nk of None \<Rightarrow> True | Some g \<Rightarrow> tg < g) then
                     s\<lparr>parent := (parent s)(nk \<mapsto> Some cur),
                       gScore := (gScore s)(nk \<mapsto> tg),
                       open_map := AList.update nk (tg + h goal nk) (open_map s)\<rparr>
                   else s))"

text \<open>
  The \<open>while\<close> loop (lines 58-88) and the \<open>return null\<close> after it. The result is the path
  or \<open>null\<close> (\<open>None\<close>), paired with the state the call ends in.
\<close>

partial_function (option) astar_loop ::
    "nat \<Rightarrow> nat \<Rightarrow> cell \<Rightarrow> astate \<Rightarrow> (cell list option \<times> astate) option" where
  "astar_loop R C goal s =
     (if length (open_map s) = 0 then Some (None, s)
      else
        (case fst (scan_open (open_map s)) of
           None \<Rightarrow> Some (None, s)
         | Some cur \<Rightarrow>
             (let s1 = s\<lparr>open_map := AList.delete cur (open_map s)\<rparr>
              in if cur = goal then
                   map_option (\<lambda>path. (Some (rev path), s1))
                     (reconstruct (parent s1) (Some cur) [])
                 else
                   (let gCur = gScore s1 cur
                    in astar_loop R C goal (fold (expand R C goal cur gCur) dirs s1)))))"

declare astar_loop.simps [code]

definition astar_init :: "cell \<Rightarrow> cell \<Rightarrow> int list list \<Rightarrow> astate" where
  "astar_init start goal g =
     \<lparr>grid = g,
      open_map = AList.update start (h goal start) [],
      gScore = Map.empty(start \<mapsto> 0),
      parent = Map.empty(start \<mapsto> None)\<rparr>"

text \<open>\<open>grid[0].length\<close> throws a \<open>TypeError\<close> when the grid has no row.\<close>

definition astar_run ::
    "cell \<Rightarrow> cell \<Rightarrow> int list list \<Rightarrow> (error + cell list option \<times> astate) option" where
  "astar_run start goal g =
     (case g of
        [] \<Rightarrow> Some (Inl TypeError)
      | row0 # _ \<Rightarrow>
          map_option Inr (astar_loop (length g) (length row0) goal (astar_init start goal g)))"

definition astarGrid :: "cell \<Rightarrow> cell \<Rightarrow> int list list \<Rightarrow> (error + cell list option) option" where
  "astarGrid start goal g = map_option (map_sum id fst) (astar_run start goal g)"

definition heap_ok :: "'a heap \<Rightarrow> bool" where
  "heap_ok d = (\<forall>j. 0 < j \<and> j < length d \<longrightarrow> fst (d ! ((j - 1) div 2)) \<le> fst (d ! j))"

definition heap_except_up :: "'a heap \<Rightarrow> nat \<Rightarrow> bool" where
  "heap_except_up d i =
     ((\<forall>j. 0 < j \<and> j < length d \<and> j \<noteq> i \<longrightarrow> fst (d ! ((j - 1) div 2)) \<le> fst (d ! j)) \<and>
      (\<forall>j. 0 < j \<and> j < length d \<and> (j - 1) div 2 = i \<and> 0 < i \<longrightarrow>
           fst (d ! ((i - 1) div 2)) \<le> fst (d ! j)))"

definition heap_except_down :: "'a heap \<Rightarrow> nat \<Rightarrow> bool" where
  "heap_except_down d i =
     ((\<forall>j. 0 < j \<and> j < length d \<and> (j - 1) div 2 \<noteq> i \<longrightarrow> fst (d ! ((j - 1) div 2)) \<le> fst (d ! j)) \<and>
      (\<forall>j. 0 < j \<and> j < length d \<and> (j - 1) div 2 = i \<and> 0 < i \<longrightarrow>
           fst (d ! ((i - 1) div 2)) \<le> fst (d ! j)))"

definition smallest_of :: "'a heap \<Rightarrow> nat \<Rightarrow> nat" where
  "smallest_of d i =
     (let s1 = (if i * 2 + 1 < length d \<and> fst (d ! (i * 2 + 1)) < fst (d ! i) then i * 2 + 1 else i)
      in if i * 2 + 2 < length d \<and> fst (d ! (i * 2 + 2)) < fst (d ! s1) then i * 2 + 2 else s1)"

text \<open>
  A sequence of queue operations, run from a given queue: \<open>Push k v\<close> is \<open>push(k, v)\<close> and
  \<open>Pop\<close> is \<open>pop()\<close>, whose result is dropped.
\<close>

datatype 'a heap_op = Push double 'a | Pop

fun run_ops :: "'a heap_op list \<Rightarrow> 'a heap \<Rightarrow> 'a heap" where
  "run_ops [] d = d"
| "run_ops (Push k v # ops) d = run_ops ops (push k v d)"
| "run_ops (Pop # ops) d = run_ops ops (snd (pop d))"

section \<open>The doubles that sums produce\<close>

text \<open>
  Every finite double is a multiple of \<open>2^-1074\<close> of magnitude below \<open>2^1024\<close>: there are
  finitely many of them, and \<open>rank\<close> numbers them (and the infinities) in increasing order.
\<close>

definition on_grid :: "rat \<Rightarrow> bool" where
  "on_grid r = (of_int \<lfloor>r * pow2 1074\<rfloor> = r * pow2 1074 \<and> \<bar>r\<bar> < pow2 1024)"

definition double_grid :: "double \<Rightarrow> bool" where
  "double_grid x = (case x of Finite r \<Rightarrow> on_grid r | _ \<Rightarrow> True)"

definition rank :: "double option \<Rightarrow> nat" where
  "rank x =
     (case x of
        None \<Rightarrow> 0
      | Some NegInf \<Rightarrow> 0
      | Some (Finite r) \<Rightarrow> Suc (nat \<lfloor>(r + pow2 1024) * pow2 1074\<rfloor>)
      | Some PosInf \<Rightarrow> Suc (Suc (nat \<lfloor>(pow2 1024 + pow2 1024) * pow2 1074\<rfloor>)))"

section \<open>Shortest paths: what dijkstra is to compute\<close>

text \<open>
  \<open>walk a src v d\<close>: the graph \<open>a\<close> has a walk from \<open>src\<close> to \<open>v\<close> whose edge weights sum
  to \<open>d\<close>, the sum being the exact one, of rationals. An edge \<open>(v, w)\<close> leaves \<open>u\<close> when it is
  listed in \<open>a[u]\<close>; a walk uses edges of finite weight.
\<close>

inductive walk :: "(int \<times> double) list list \<Rightarrow> int \<Rightarrow> int \<Rightarrow> rat \<Rightarrow> bool"
  for a :: "(int \<times> double) list list" and src :: int where
  walk_src: "walk a src src 0"
| walk_step: "walk a src u d \<Longrightarrow> js_index a u = Some es \<Longrightarrow> (v, Finite w) \<in> set es \<Longrightarrow>
              walk a src v (d + w)"

text \<open>
  \<open>x\<close> is the true shortest-path distance from \<open>src\<close> to \<open>v\<close>: the least weight of a walk,
  or \<open>Infinity\<close> when there is none.
\<close>

definition shortest_distance :: "(int \<times> double) list list \<Rightarrow> int \<Rightarrow> int \<Rightarrow> double \<Rightarrow> bool" where
  "shortest_distance a src v x =
     (case x of
        Finite d \<Rightarrow> walk a src v d \<and> (\<forall>d'. walk a src v d' \<longrightarrow> d \<le> d')
      | PosInf \<Rightarrow> (\<forall>d'. \<not> walk a src v d')
      | NegInf \<Rightarrow> False)"

definition nonneg_weights :: "(int \<times> double) list list \<Rightarrow> bool" where
  "nonneg_weights a = (\<forall>es \<in> set a. \<forall>(v, w) \<in> set es. Finite 0 \<le> w)"

text \<open>A weight that is a non-negative integer, and a graph of such weights.\<close>

definition nat_weight :: "double \<Rightarrow> bool" where
  "nat_weight w = (case w of Finite x \<Rightarrow> 0 \<le> x \<and> of_int \<lfloor>x\<rfloor> = x | _ \<Rightarrow> False)"

definition nat_weights :: "(int \<times> double) list list \<Rightarrow> bool" where
  "nat_weights a = (\<forall>es \<in> set a. \<forall>(v, w) \<in> set es. nat_weight w)"

definition is_node :: "'a list \<Rightarrow> int \<Rightarrow> bool" where
  "is_node a v = (0 \<le> v \<and> v < int (length a))"

text \<open>
  The measure that decreases in the loop of dijkstra, on every input: the entries of the
  table are doubles, an assignment to an entry lowers it, and the queue shrinks when no
  entry is assigned.
\<close>

definition dist_grid :: "dstate \<Rightarrow> bool" where
  "dist_grid s = (finite (dom (dist s)) \<and> (\<forall>v x. dist s v = Some x \<longrightarrow> double_grid x))"

definition dmeasure :: "dstate \<Rightarrow> nat \<times> nat" where
  "dmeasure s = (\<Sum>v \<in> dom (dist s). rank (dist s v), length (pq s))"

definition dless :: "(dstate \<times> dstate) set" where
  "dless = inv_image (less_than <*lex*> less_than) dmeasure"

definition dprogress :: "dstate \<Rightarrow> dstate \<Rightarrow> bool" where
  "dprogress s' s = (dom (dist s') = dom (dist s) \<and> fst (dmeasure s') < fst (dmeasure s))"

definition relax1 :: "int \<Rightarrow> int \<Rightarrow> double \<Rightarrow> dstate \<Rightarrow> dstate" where
  "relax1 u v w s =
     (if js_gt (dist s v) (js_add (dist s u) (Some w)) then
        (case js_add (dist s u) (Some w) of
           Some dv \<Rightarrow> s\<lparr>dist := (dist s)(v \<mapsto> dv), pq := push dv v (pq s)\<rparr>
         | None \<Rightarrow> s)
      else s)"

text \<open>
  Invariants of the loops of dijkstra on a graph of non-negative integer weights. An
  entry is \<open>Infinity\<close>, or a number that is at least every integer up to \<open>2^53\<close> that no
  walk to the node undercuts. A node with a finite entry is queued at that key, or the
  test of line 47 is false for each of its edges.
\<close>

definition dinv_local :: "(int \<times> double) list list \<Rightarrow> int \<Rightarrow> dstate \<Rightarrow> bool" where
  "dinv_local a src s =
     (adj s = a
      \<and> (\<forall>v. (dist s v \<noteq> None) = is_node a v)
      \<and> (\<forall>v. dist s v \<noteq> Some NegInf)
      \<and> (\<forall>v r. dist s v = Some (Finite r) \<longrightarrow>
            0 \<le> r \<and> (\<exists>d. walk a src v d)
            \<and> (\<forall>k. 0 \<le> k \<and> k \<le> 2 ^ 53 \<and> (\<forall>d. walk a src v d \<longrightarrow> of_int k \<le> d) \<longrightarrow> of_int k \<le> r))
      \<and> dist s src = Some (Finite 0)
      \<and> (\<forall>k v. (k, v) \<in> set (pq s) \<longrightarrow> (\<exists>x. dist s v = Some x \<and> x \<le> k)))"

definition relaxed :: "(int \<times> double) list list \<Rightarrow> dstate \<Rightarrow> int \<Rightarrow> double \<Rightarrow> bool" where
  "relaxed a s u du =
     (\<forall>es. js_index a u = Some es \<longrightarrow>
        (\<forall>(v, w) \<in> set es. \<not> js_gt (dist s v) (js_add (Some du) (Some w))))"

definition dinv :: "(int \<times> double) list list \<Rightarrow> int \<Rightarrow> dstate \<Rightarrow> bool" where
  "dinv a src s =
     (dinv_local a src s \<and> dist_grid s
      \<and> (\<forall>u r. dist s u = Some (Finite r) \<longrightarrow> (Finite r, u) \<in> set (pq s) \<or> relaxed a s u (Finite r)))"

definition example_graph :: "(int \<times> double) list list" where
  "example_graph =
     [[(1, Finite 4), (2, Finite 1)], [(2, Finite 2), (3, Finite 5)], [(3, Finite 1)], [], []]"

text \<open>A graph on which a sum of the source is rounded: \<open>2^53 - 1 + 2\<close> is not a double.\<close>

definition rounding_graph :: "(int \<times> double) list list" where
  "rounding_graph = [[(1, Finite 9007199254740991)], [(2, Finite 2)], [(3, Finite 1)], []]"

definition grid4 :: "int list list" where
  "grid4 = [[0, 0, 0, 0], [0, 1, 1, 0], [0, 1, 1, 0], [0, 0, 0, 0]]"

section \<open>Rooted trees: what LCA is built from and is to answer\<close>

text \<open>
  \<open>rooted_tree a r par dep\<close>: the adjacency lists \<open>a\<close> are those of a tree on the nodes
  \<open>0..n-1\<close> rooted at \<open>r\<close>, with \<open>par\<close> the parent of each node (the root is its own parent,
  the convention of \<open>dfs(root, root)\<close>) and \<open>dep\<close> its distance from the root. Every node
  but the root has its parent one level above it, so the parent links are acyclic and lead
  to the root; the list of a node holds exactly its parent and its children.
\<close>

definition rooted_tree :: "int list list \<Rightarrow> int \<Rightarrow> (int \<Rightarrow> int) \<Rightarrow> (int \<Rightarrow> nat) \<Rightarrow> bool" where
  "rooted_tree a r par dep =
     (is_node a r \<and> par r = r \<and> dep r = 0
      \<and> (\<forall>v. is_node a v \<and> v \<noteq> r \<longrightarrow> is_node a (par v) \<and> dep v = Suc (dep (par v)))
      \<and> (\<forall>u. is_node a u \<longrightarrow>
             set (a ! nat u) = {c. is_node a c \<and> c \<noteq> r \<and> par c = u} \<union> (if u = r then {} else {par u})))"

text \<open>\<open>x\<close> is an ancestor of \<open>v\<close>: some number of parent steps from \<open>v\<close> (none included) reach \<open>x\<close>.\<close>

definition ancestor :: "(int \<Rightarrow> int) \<Rightarrow> int \<Rightarrow> int \<Rightarrow> bool" where
  "ancestor par x v = (\<exists>k. (par ^^ k) v = x)"

text \<open>\<open>desc a r par c x\<close>: \<open>x\<close> lies in the subtree of \<open>c\<close>.\<close>

inductive desc :: "int list list \<Rightarrow> int \<Rightarrow> (int \<Rightarrow> int) \<Rightarrow> int \<Rightarrow> int \<Rightarrow> bool"
  for a :: "int list list" and r :: int and par :: "int \<Rightarrow> int" and c :: int where
  desc_refl: "is_node a c \<Longrightarrow> desc a r par c c"
| desc_step: "desc a r par c y \<Longrightarrow> is_node a x \<Longrightarrow> x \<noteq> r \<Longrightarrow> par x = y \<Longrightarrow> desc a r par c x"

text \<open>Invariants of the traversal.\<close>

definition visited :: "(int \<Rightarrow> int) \<Rightarrow> (int \<Rightarrow> nat) \<Rightarrow> lca \<Rightarrow> int \<Rightarrow> bool" where
  "visited par dep t x = ((lca_up t ! 0) x = Some (par x) \<and> lca_depth t x = Some (int (dep x)))"

definition tinv :: "int list list \<Rightarrow> lca \<Rightarrow> bool" where
  "tinv a t =
     (lca_adj t = a \<and> lca_n t = length a \<and> lca_LOG t = ceil_log2 (max 2 (length a))
      \<and> length (lca_up t) = lca_LOG t)"

definition tree3 :: "int list list" where
  "tree3 = [[1, 2], [0], [0]]"

definition tree3_par :: "int \<Rightarrow> int" where
  "tree3_par v = 0"

definition tree3_dep :: "int \<Rightarrow> nat" where
  "tree3_dep v = (if v = 0 then 0 else 1)"

definition row_ok :: "int list list \<Rightarrow> (int \<Rightarrow> int) \<Rightarrow> lca \<Rightarrow> nat \<Rightarrow> bool" where
  "row_ok a par t k = (\<forall>v. is_node a v \<longrightarrow> (lca_up t ! k) v = Some ((par ^^ (2 ^ k)) v))"

text \<open>
  \<open>x\<close> is the lowest common ancestor of \<open>u\<close> and \<open>v\<close>: an ancestor of both, with no proper
  descendant that is an ancestor of both.
\<close>

definition is_lca :: "int list list \<Rightarrow> (int \<Rightarrow> int) \<Rightarrow> int \<Rightarrow> int \<Rightarrow> int \<Rightarrow> bool" where
  "is_lca a par x u v =
     (is_node a x \<and> ancestor par x u \<and> ancestor par x v
      \<and> (\<forall>y. is_node a y \<and> ancestor par x y \<and> y \<noteq> x \<longrightarrow>
             \<not> (ancestor par y u \<and> ancestor par y v)))"

text \<open>The statements of \<open>query\<close> after the swap of line 30, for \<open>u\<close> the deeper node.\<close>

definition query_body :: "lca \<Rightarrow> int \<Rightarrow> int \<Rightarrow> int option" where
  "query_body t u v =
     (let diff = js_sub (lca_depth t u) (lca_depth t v);
          u1 = lift t diff (Some u)
      in if u1 = Some v then u1
         else (let (u2, v2) = climb t (u1, Some v) in up_at t 0 u2))"

text \<open>\<open>reach a rt v\<close>: \<open>v\<close> is reached from the root \<open>rt\<close> along entries of the adjacency lists.\<close>

inductive reach :: "int list list \<Rightarrow> int \<Rightarrow> int \<Rightarrow> bool"
  for a :: "int list list" and rt :: int where
  reach_root: "reach a rt rt"
| reach_step: "reach a rt u \<Longrightarrow> js_index a u = Some es \<Longrightarrow> v \<in> set es \<Longrightarrow> reach a rt v"

text \<open>What the traversal leaves as it was: what belongs to a node that is not reached.\<close>

definition same_unreached :: "int list list \<Rightarrow> int \<Rightarrow> lca \<Rightarrow> lca \<Rightarrow> bool" where
  "same_unreached a rt t t' =
     (lca_adj t' = lca_adj t \<and> lca_n t' = lca_n t \<and> lca_LOG t' = lca_LOG t
      \<and> length (lca_up t') = length (lca_up t)
      \<and> (\<forall>x. \<not> reach a rt x \<longrightarrow>
             (lca_up t' ! 0) x = (lca_up t ! 0) x \<and> lca_depth t' x = lca_depth t x))"

definition two_isolated :: "int list list" where
  "two_isolated = [[], []]"

section \<open>Grid paths: what astarGrid is to find\<close>

text \<open>
  A cell is free when it lies in the grid and its value is not 1; a grid is rectangular
  when all its rows have the length of the first.
\<close>

definition free :: "int list list \<Rightarrow> cell \<Rightarrow> bool" where
  "free g c =
     (0 \<le> fst c \<and> fst c < int (length g) \<and> 0 \<le> snd c
      \<and> snd c < int (length (g ! nat (fst c))) \<and> g ! nat (fst c) ! nat (snd c) \<noteq> 1)"

definition rectangular :: "int list list \<Rightarrow> bool" where
  "rectangular g = (\<forall>row \<in> set g. length row = length (g ! 0))"

text \<open>One cardinal step of unit length.\<close>

definition step :: "cell \<Rightarrow> cell \<Rightarrow> bool" where
  "step c c' = (\<exists>d \<in> set dirs. c' = (fst c + fst d, snd c + snd d))"

text \<open>
  \<open>grid_path g start goal p\<close>: \<open>p\<close> lists, from \<open>start\<close> to \<open>goal\<close>, free cells of which each is
  one cardinal step from the one before it.
\<close>

definition grid_path :: "int list list \<Rightarrow> cell \<Rightarrow> cell \<Rightarrow> cell list \<Rightarrow> bool" where
  "grid_path g start goal p =
     (p \<noteq> [] \<and> hd p = start \<and> last p = goal \<and> (\<forall>c \<in> set p. free g c)
      \<and> (\<forall>j. Suc j < length p \<longrightarrow> step (p ! j) (p ! Suc j)))"

text \<open>Invariants of the loop of astarGrid, and the measure that decreases.\<close>

definition passable :: "nat \<Rightarrow> nat \<Rightarrow> int list list \<Rightarrow> cell \<Rightarrow> bool" where
  "passable R C g c = (inBounds R C (fst c) (snd c) \<and> js_index (g ! nat (fst c)) (snd c) \<noteq> Some 1)"

definition ainv :: "int list list \<Rightarrow> cell \<Rightarrow> cell \<Rightarrow> astate \<Rightarrow> bool" where
  "ainv g start goal s =
     (grid s = g
      \<and> gScore s start = Some 0 \<and> parent s start = Some None
      \<and> (\<forall>c k. gScore s c = Some k \<longrightarrow> 0 \<le> k)
      \<and> (\<forall>c k. gScore s c = Some k \<and> c \<noteq> start \<longrightarrow>
             free g c \<and> (\<exists>q kq. parent s c = Some (Some q) \<and> step q c
                              \<and> gScore s q = Some kq \<and> kq < k))
      \<and> distinct (map fst (open_map s))
      \<and> (\<forall>c f. map_of (open_map s) c = Some f \<longrightarrow> (\<exists>k. gScore s c = Some k \<and> f = k + h goal c)))"

definition good :: "astate \<Rightarrow> cell list \<Rightarrow> nat \<Rightarrow> bool" where
  "good s p j = (j < length p \<and> (\<exists>k. gScore s (p ! j) = Some k \<and> k \<le> int j))"

definition kinv :: "int list list \<Rightarrow> cell \<Rightarrow> cell \<Rightarrow> astate \<Rightarrow> bool" where
  "kinv g start goal s =
     (\<forall>p. grid_path g start goal p \<longrightarrow>
        (\<forall>j. good s p j \<longrightarrow> map_of (open_map s) (p ! j) \<noteq> None \<or> (\<exists>j'. j < j' \<and> good s p j')))"

definition cells :: "int list list \<Rightarrow> cell set" where
  "cells g = {0..<int (length g)} \<times> {0..<int (length (g ! 0))}"

definition rank_undef :: "int option \<Rightarrow> nat" where
  "rank_undef x = (case x of None \<Rightarrow> 1 | Some k \<Rightarrow> 0)"

definition rank_val :: "int option \<Rightarrow> nat" where
  "rank_val x = (case x of None \<Rightarrow> 0 | Some k \<Rightarrow> nat k)"

definition ameasure :: "astate \<Rightarrow> nat \<times> nat \<times> nat" where
  "ameasure s =
     (\<Sum>c \<in> cells (grid s). rank_undef (gScore s c),
      \<Sum>c \<in> cells (grid s). rank_val (gScore s c),
      length (open_map s))"

definition aless :: "(astate \<times> astate) set" where
  "aless = inv_image (less_than <*lex*> less_than <*lex*> less_than) ameasure"

definition aprogress :: "astate \<Rightarrow> astate \<Rightarrow> bool" where
  "aprogress s' s =
     (grid s' = grid s \<and>
      (fst (ameasure s') < fst (ameasure s)
       \<or> (fst (ameasure s') = fst (ameasure s)
           \<and> fst (snd (ameasure s')) < fst (snd (ameasure s)))))"

definition amono :: "astate \<Rightarrow> astate \<Rightarrow> bool" where
  "amono s s' =
     (grid s' = grid s
      \<and> (\<forall>c k. gScore s c = Some k \<longrightarrow> (\<exists>k'. gScore s' c = Some k' \<and> k' \<le> k))
      \<and> (\<forall>c. map_of (open_map s) c \<noteq> None \<longrightarrow> map_of (open_map s') c \<noteq> None)
      \<and> (\<forall>c. gScore s' c \<noteq> gScore s c \<longrightarrow> map_of (open_map s') c \<noteq> None))"

lemma length_swap [simp]: "length (swap d i j) = length d"
  by (simp add: swap_def)

lemma mset_swap_heap [simp]: "i < length d \<Longrightarrow> j < length d \<Longrightarrow> mset (swap d i j) = mset d"
  by (simp add: swap_def mset_swap)

lemma nth_swap:
  "i < length d \<Longrightarrow> j < length d \<Longrightarrow> k < length d \<Longrightarrow>
   swap d i j ! k = (if k = j then d ! i else if k = i then d ! j else d ! k)"
  by (simp add: swap_def nth_list_update)

lemma sift_up_step:
  assumes ex: "heap_except_up d i" and i: "0 < i" "i < length d"
    and lt: "\<not> fst (d ! ((i - 1) div 2)) \<le> fst (d ! i)"
  shows "heap_except_up (swap d ((i - 1) div 2) i) ((i - 1) div 2)"
proof -
  define p where "p = (i - 1) div 2"
  have p': "(i - Suc 0) div 2 = p" by (simp add: p_def)
  have pi: "p < i" using i by (simp add: p_def)
  have pl: "p < length d" using pi i by simp
  have lt': "fst (d ! i) \<le> fst (d ! p)" using lt by (simp add: p_def)
  have A: "\<And>j. 0 < j \<Longrightarrow> j < length d \<Longrightarrow> j \<noteq> i \<Longrightarrow> fst (d ! ((j - 1) div 2)) \<le> fst (d ! j)"
    using ex by (simp add: heap_except_up_def)
  have B: "\<And>j. 0 < j \<Longrightarrow> j < length d \<Longrightarrow> (j - 1) div 2 = i \<Longrightarrow> fst (d ! p) \<le> fst (d ! j)"
    using ex i by (simp add: heap_except_up_def p_def)
  have 1: "fst (swap d p i ! ((j - 1) div 2)) \<le> fst (swap d p i ! j)"
    if j: "0 < j" "j < length d" "j \<noteq> p" for j
  proof -
    have jl: "(j - 1) div 2 < length d" using j by simp
    have jj: "(j - 1) div 2 < j" using j by simp
    show ?thesis
    proof (cases "j = i")
      case True
      then show ?thesis using lt' pl i pi by (simp add: nth_swap p')
    next
      case False
      note ji = this
      show ?thesis
      proof (cases "(j - 1) div 2 = p")
        case True
        then have "fst (d ! p) \<le> fst (d ! j)" using A[of j] j ji by simp
        then show ?thesis using True j ji pl i lt' by (simp add: nth_swap)
      next
        case False
        note jp = this
        show ?thesis
        proof (cases "(j - 1) div 2 = i")
          case True
          then show ?thesis using B[of j] j ji pl i by (simp add: nth_swap)
        next
          case False
          then show ?thesis using A[of j] j ji jp jl pl i by (simp add: nth_swap)
        qed
      qed
    qed
  qed
  have 2: "fst (swap d p i ! ((p - 1) div 2)) \<le> fst (swap d p i ! j)"
    if j: "0 < j" "j < length d" "(j - 1) div 2 = p" "0 < p" for j
  proof -
    have ppl: "(p - 1) div 2 < p" using j by simp
    have pp: "fst (d ! ((p - 1) div 2)) \<le> fst (d ! p)" using A[of p] j pl pi by simp
    have jp: "j \<noteq> p" using j by auto
    have e1: "swap d p i ! ((p - 1) div 2) = d ! ((p - 1) div 2)"
      using ppl pl pi i by (simp add: nth_swap)
    show ?thesis
    proof (cases "j = i")
      case True
      then show ?thesis using e1 pp pl i by (simp add: nth_swap)
    next
      case False
      then have "fst (d ! p) \<le> fst (d ! j)" using A[of j] j by simp
      then show ?thesis using e1 pp False jp pl i j by (simp add: nth_swap)
    qed
  qed
  show ?thesis
    unfolding heap_except_up_def p_def[symmetric] using 1 2 by simp
qed

lemma sift_up_heap_ok:
  "heap_except_up d i \<Longrightarrow> i < length d \<Longrightarrow> heap_ok (sift_up d i)"
proof (induction d i rule: sift_up.induct)
  case (1 d i)
  show ?case
  proof (cases "0 < i")
    case False
    then have "heap_ok d" using "1.prems" by (auto simp: heap_except_up_def heap_ok_def)
    then show ?thesis using False by (subst sift_up.simps) simp
  next
    case True
    show ?thesis
    proof (cases "fst (d ! ((i - 1) div 2)) \<le> fst (d ! i)")
      case True
      then have "heap_ok d" using "1.prems" \<open>0 < i\<close>
        by (auto simp: heap_except_up_def heap_ok_def)
      then show ?thesis using True by (subst sift_up.simps) (simp add: Let_def)
    next
      case False
      have "heap_except_up (swap d ((i - 1) div 2) i) ((i - 1) div 2)"
        using sift_up_step[OF "1.prems"(1) True "1.prems"(2) False] .
      moreover have "(i - 1) div 2 < length (swap d ((i - 1) div 2) i)"
        using "1.prems" True by simp
      ultimately have "heap_ok (sift_up (swap d ((i - 1) div 2) i) ((i - 1) div 2))"
        using "1.IH"[OF True refl False] by simp
      then show ?thesis using True False by (subst sift_up.simps) (simp add: Let_def)
    qed
  qed
qed

lemma sift_up_mset: "i < length d \<Longrightarrow> mset (sift_up d i) = mset d"
proof (induction d i rule: sift_up.induct)
  case (1 d i)
  show ?case
  proof (cases "0 < i \<and> \<not> fst (d ! ((i - 1) div 2)) \<le> fst (d ! i)")
    case True
    then have "mset (sift_up (swap d ((i - 1) div 2) i) ((i - 1) div 2)) = mset (swap d ((i - 1) div 2) i)"
      using "1.IH"[OF _ refl] "1.prems" by simp
    then show ?thesis using True "1.prems" by (subst sift_up.simps) (simp add: Let_def)
  next
    case False
    then show ?thesis by (subst sift_up.simps) (auto simp: Let_def)
  qed
qed

lemma push_mset: "mset (push k v d) = add_mset (k, v) (mset d)"
  by (simp add: push_def sift_up_mset)

lemma push_heap_ok:
  assumes "heap_ok d"
  shows "heap_ok (push k v d)"
  unfolding push_def
proof (rule sift_up_heap_ok)
  have A: "\<And>j. 0 < j \<Longrightarrow> j < length d \<Longrightarrow> fst (d ! ((j - 1) div 2)) \<le> fst (d ! j)"
    using assms by (simp add: heap_ok_def)
  have 1: "fst ((d @ [(k, v)]) ! ((j - 1) div 2)) \<le> fst ((d @ [(k, v)]) ! j)"
    if "0 < j" "j < length (d @ [(k, v)])" "j \<noteq> length d" for j
  proof -
    have "j < length d" using that by simp
    moreover have "(j - 1) div 2 < length d" using that by simp
    ultimately show ?thesis using A[of j] that by (simp add: nth_append)
  qed
  have 2: "\<not> (0 < j \<and> j < length (d @ [(k, v)]) \<and> (j - 1) div 2 = length d)" for j
    by auto
  show "heap_except_up (d @ [(k, v)]) (length d)"
    unfolding heap_except_up_def using 1 2 by blast
  show "length d < length (d @ [(k, v)])" by simp
qed

lemma sift_down_unfold:
  "sift_down d i =
     (if smallest_of d i = i then d else sift_down (swap d i (smallest_of d i)) (smallest_of d i))"
  by (subst sift_down.simps) (auto simp: smallest_of_def Let_def)

lemma smallest_of_cases:
  "smallest_of d i = i \<or> smallest_of d i = i * 2 + 1 \<or> smallest_of d i = i * 2 + 2"
  by (simp add: smallest_of_def Let_def)

lemma smallest_of_lt: "smallest_of d i \<noteq> i \<Longrightarrow> smallest_of d i < length d"
  by (auto simp: smallest_of_def Let_def split: if_splits)

lemma smallest_of_le:
  "i * 2 + 1 < length d \<Longrightarrow> fst (d ! smallest_of d i) \<le> fst (d ! (i * 2 + 1))"
  "i * 2 + 2 < length d \<Longrightarrow> fst (d ! smallest_of d i) \<le> fst (d ! (i * 2 + 2))"
  "fst (d ! smallest_of d i) \<le> fst (d ! i)"
  by (auto simp: smallest_of_def Let_def split: if_splits)

lemma smallest_of_less: "smallest_of d i \<noteq> i \<Longrightarrow> fst (d ! smallest_of d i) < fst (d ! i)"
  by (auto simp: smallest_of_def Let_def split: if_splits)

lemma parent_eq_iff: "0 < j \<Longrightarrow> ((j - 1) div 2 = i) = (j = i * 2 + 1 \<or> j = i * 2 + (2::nat))"
  by auto

lemma sift_down_stop:
  assumes ex: "heap_except_down d i" and sm: "smallest_of d i = i"
  shows "heap_ok d"
  unfolding heap_ok_def
proof (intro allI impI)
  fix j assume j: "0 < j \<and> j < length d"
  show "fst (d ! ((j - 1) div 2)) \<le> fst (d ! j)"
  proof (cases "(j - 1) div 2 = i")
    case False
    then show ?thesis using ex j by (simp add: heap_except_down_def)
  next
    case True
    then have "j = i * 2 + 1 \<or> j = i * 2 + 2" using j parent_eq_iff[of j i] by simp
    then show ?thesis using smallest_of_le(1,2)[of i d] sm j True by auto
  qed
qed

lemma sift_down_step:
  assumes ex: "heap_except_down d i" and i: "i < length d" and sm: "smallest_of d i \<noteq> i"
  shows "heap_except_down (swap d i (smallest_of d i)) (smallest_of d i)"
proof -
  define m where "m = smallest_of d i"
  have ml: "m < length d" using smallest_of_lt[OF sm] by (simp add: m_def)
  have mc: "m = i * 2 + 1 \<or> m = i * 2 + 2" using smallest_of_cases[of d i] sm by (simp add: m_def)
  have pm: "(m - 1) div 2 = i" using mc by auto
  have im: "i < m" using mc by auto
  have mi: "fst (d ! m) < fst (d ! i)" using smallest_of_less[OF sm] by (simp add: m_def)
  have mi': "fst (d ! m) \<le> fst (d ! i)" using mi by simp
  have A: "\<And>j. 0 < j \<Longrightarrow> j < length d \<Longrightarrow> (j - 1) div 2 \<noteq> i \<Longrightarrow>
              fst (d ! ((j - 1) div 2)) \<le> fst (d ! j)"
    using ex by (simp add: heap_except_down_def)
  have B: "\<And>j. 0 < j \<Longrightarrow> j < length d \<Longrightarrow> (j - 1) div 2 = i \<Longrightarrow> 0 < i \<Longrightarrow>
              fst (d ! ((i - 1) div 2)) \<le> fst (d ! j)"
    using ex by (simp add: heap_except_down_def)
  have 1: "fst (swap d i m ! ((j - 1) div 2)) \<le> fst (swap d i m ! j)"
    if j: "0 < j" "j < length d" "(j - 1) div 2 \<noteq> m" for j
  proof -
    have jl: "(j - 1) div 2 < length d" using j by simp
    have jj: "(j - 1) div 2 < j" using j by simp
    show ?thesis
    proof (cases "(j - 1) div 2 = i")
      case True
      then have jc: "j = i * 2 + 1 \<or> j = i * 2 + 2" using j parent_eq_iff[of j i] by simp
      have "fst (d ! m) \<le> fst (d ! j)"
        using jc smallest_of_le(1,2)[of i d] j by (auto simp: m_def)
      then show ?thesis using True j ml i im mi' jj by (simp add: nth_swap)
    next
      case False
      note pj = this
      show ?thesis
      proof (cases "j = i")
        case True
        then have "fst (d ! ((i - 1) div 2)) \<le> fst (d ! m)" using B[of m] ml pm j im by simp
        then show ?thesis using True j ml i im jj jl pj by (simp add: nth_swap)
      next
        case False
        have "j \<noteq> m" using pj pm by auto
        then show ?thesis using A[of j] False j pj jl ml i by (simp add: nth_swap)
      qed
    qed
  qed
  have 2: "fst (swap d i m ! ((m - 1) div 2)) \<le> fst (swap d i m ! j)"
    if j: "0 < j" "j < length d" "(j - 1) div 2 = m" for j
  proof -
    have "m < j" using j by auto
    moreover have "fst (d ! m) \<le> fst (d ! j)" using A[of j] j im by simp
    ultimately show ?thesis using pm ml i im j by (simp add: nth_swap)
  qed
  show ?thesis
    unfolding heap_except_down_def m_def[symmetric] using 1 2 by simp
qed

lemma sift_down_heap_ok:
  "heap_except_down d i \<Longrightarrow> i < length d \<Longrightarrow> heap_ok (sift_down d i)"
proof (induction "length d - i" arbitrary: d i rule: less_induct)
  case less
  show ?case
  proof (cases "smallest_of d i = i")
    case True
    then show ?thesis using sift_down_stop[OF less.prems(1) True]
      by (subst sift_down_unfold) simp
  next
    case False
    have "i < smallest_of d i" using smallest_of_cases[of d i] False by auto
    then have "heap_ok (sift_down (swap d i (smallest_of d i)) (smallest_of d i))"
      using less.hyps[of "swap d i (smallest_of d i)" "smallest_of d i"]
        sift_down_step[OF less.prems False] smallest_of_lt[OF False] less.prems(2)
      by simp
    then show ?thesis using False by (subst sift_down_unfold) simp
  qed
qed

lemma sift_down_mset: "i < length d \<Longrightarrow> mset (sift_down d i) = mset d"
proof (induction "length d - i" arbitrary: d i rule: less_induct)
  case less
  show ?case
  proof (cases "smallest_of d i = i")
    case True
    then show ?thesis by (subst sift_down_unfold) simp
  next
    case False
    have "i < smallest_of d i" using smallest_of_cases[of d i] False by auto
    then have "mset (sift_down (swap d i (smallest_of d i)) (smallest_of d i)) =
          mset (swap d i (smallest_of d i))"
      using less.hyps[of "swap d i (smallest_of d i)" "smallest_of d i"]
        smallest_of_lt[OF False] less.prems
      by simp
    then show ?thesis using False less.prems smallest_of_lt[OF False]
      by (subst sift_down_unfold) simp
  qed
qed

lemma heap_ok_root_min:
  "heap_ok d \<Longrightarrow> j < length d \<Longrightarrow> fst (d ! 0) \<le> fst (d ! j)"
proof (induction j rule: less_induct)
  case (less j)
  show ?case
  proof (cases "j = 0")
    case True
    then show ?thesis by simp
  next
    case False
    then have "(j - 1) div 2 < j" by simp
    moreover have "fst (d ! ((j - 1) div 2)) \<le> fst (d ! j)"
      using less.prems False by (simp add: heap_ok_def)
    ultimately show ?thesis using less.IH[of "(j - 1) div 2"] less.prems by simp
  qed
qed

lemma butlast_ne: "butlast d \<noteq> [] \<Longrightarrow> Suc 0 < length d"
  by (cases d) (auto split: if_splits)

lemma pop_None_iff: "(fst (pop d) = None) = (d = [])"
  by (simp add: pop_def Let_def)

lemma pop_Some: "d \<noteq> [] \<Longrightarrow> fst (pop d) = Some (d ! 0)"
  by (simp add: pop_def Let_def)

lemma pop_mset: "d \<noteq> [] \<Longrightarrow> add_mset (d ! 0) (mset (snd (pop d))) = mset d"
proof -
  assume ne: "d \<noteq> []"
  show ?thesis
  proof (cases "butlast d = []")
    case True
    then have "d = [d ! 0]" using ne by (cases d) (auto split: if_splits)
    then have "mset d = {#d ! 0#}" by (metis mset_single_iff_right)
    then show ?thesis using True ne by (simp add: pop_def Let_def)
  next
    case False
    have l: "d ! (length d - 1) = last d" using ne by (simp add: last_conv_nth)
    have b0: "butlast d ! 0 = d ! 0" using butlast_ne[OF False] by (simp add: nth_butlast)
    have "mset d = add_mset (last d) (mset (butlast d))"
      using ne by (metis append_butlast_last_id mset.simps(2) mset_append mset.simps(1) union_mset_add_mset_right add.right_neutral)
    moreover have "mset ((butlast d)[0 := last d]) = add_mset (last d) (mset (butlast d) - {#d ! 0#})"
      using mset_update[of 0 "butlast d" "last d"] False b0 by (simp del: length_butlast)
    moreover have "d ! 0 \<in># mset (butlast d)"
      using False b0 by (metis length_greater_0_conv nth_mem set_mset_mset)
    moreover have "mset (sift_down ((butlast d)[0 := last d]) 0) = mset ((butlast d)[0 := last d])"
      using butlast_ne[OF False] by (simp add: sift_down_mset)
    ultimately show ?thesis using False ne l
      by (simp add: pop_def Let_def)
  qed
qed

lemma pop_heap_ok:
  assumes "heap_ok d"
  shows "heap_ok (snd (pop d))"
proof (cases "butlast d = []")
  case True
  then show ?thesis by (simp add: pop_def Let_def heap_ok_def)
next
  case False
  then have ne: "d \<noteq> []" by auto
  define d1 where "d1 = (butlast d)[0 := d ! (length d - 1)]"
  have A: "\<And>j. 0 < j \<Longrightarrow> j < length d \<Longrightarrow> fst (d ! ((j - 1) div 2)) \<le> fst (d ! j)"
    using assms by (simp add: heap_ok_def)
  have 1: "fst (d1 ! ((j - 1) div 2)) \<le> fst (d1 ! j)"
    if j: "0 < j" "j < length d1" "(j - 1) div 2 \<noteq> 0" for j
  proof -
    have "j < length d - 1" using j by (simp add: d1_def)
    moreover have "(j - 1) div 2 < length d - 1" using j by (simp add: d1_def)
    ultimately show ?thesis using A[of j] j by (simp add: d1_def nth_butlast)
  qed
  have "heap_except_down d1 0"
    unfolding heap_except_down_def using 1 by simp
  moreover have "0 < length d1" using butlast_ne[OF False] by (simp add: d1_def)
  ultimately have "heap_ok (sift_down d1 0)" by (rule sift_down_heap_ok)
  then show ?thesis using False ne by (simp add: pop_def Let_def d1_def)
qed

lemma run_ops_heap_ok: "heap_ok d \<Longrightarrow> heap_ok (run_ops ops d)"
  by (induction ops d rule: run_ops.induct) (simp_all add: push_heap_ok pop_heap_ok)

lemma heap_ok_Nil: "heap_ok []"
  by (simp add: heap_ok_def)

lemma pop_min_of_rest:
  assumes ok: "heap_ok d" and x: "x \<in> set (snd (pop d))" and ne: "d \<noteq> []"
  shows "fst (d ! 0) \<le> fst x"
proof -
  have "x \<in># mset d" using pop_mset[OF ne] x by (metis insert_iff set_mset_add_mset_insert set_mset_mset)
  then obtain j where "j < length d" "d ! j = x" by (auto simp: in_set_conv_nth)
  then show ?thesis using heap_ok_root_min[OF ok, of j] by simp
qed

text \<open>
  C4. Starting from the empty queue, after any sequence of pushes and pops: \<open>push\<close> adds
  exactly the given entry to the queue's contents; \<open>pop\<close> returns \<open>null\<close> exactly when the
  queue holds no entry; and otherwise the entry it returns is removed from the contents and
  its key is less than or equal to the key of every entry that remains.
\<close>

theorem minheap_pop_returns_minimum:
  fixes ops :: "'a heap_op list"
  defines "d \<equiv> run_ops ops []"
  shows "mset (push k v d) = add_mset (k, v) (mset d)
       \<and> ((fst (pop d) = None) = (size_heap d = 0))
       \<and> (\<forall>e. fst (pop d) = Some e \<longrightarrow>
              mset d = add_mset e (mset (snd (pop d)))
            \<and> (\<forall>x \<in> set (snd (pop d)). fst e \<le> fst x))"
proof -
  have ok: "heap_ok d" unfolding d_def by (rule run_ops_heap_ok[OF heap_ok_Nil])
  have "mset d = add_mset e (mset (snd (pop d))) \<and> (\<forall>x \<in> set (snd (pop d)). fst e \<le> fst x)"
    if e: "fst (pop d) = Some e" for e
  proof -
    have ne: "d \<noteq> []" using e pop_None_iff[of d] by auto
    then have "e = d ! 0" using e pop_Some[of d] by simp
    then show ?thesis using pop_mset[OF ne] pop_min_of_rest[OF ok _ ne] by simp
  qed
  then show ?thesis by (simp add: push_mset pop_None_iff size_heap_def)
qed

theorem minheap_pop_returns_minimum_witness:
  "pop (run_ops [Push (Finite 5) ''a'', Push (Finite 1) ''b'', Push (Finite 3) ''c''] [])
     = (Some (Finite 1, ''b''), [(Finite 3, ''c''), (Finite 5, ''a'')])
   \<and> Finite 1 \<le> Finite 3 \<and> Finite 1 \<le> Finite 5
   \<and> pop (run_ops [Push (Finite 5) ''a'', Pop] []) = (None, [])"
  using minheap_pop_returns_minimum[of "Finite 0" "''z''" "[Push (Finite 5) ''a'', Push (Finite 1) ''b'', Push (Finite 3) ''c'']"]
  by (simp add: push_def pop_def sift_up.simps sift_down.simps swap_def Let_def less_double_def)

section \<open>Comparisons of numbers\<close>

lemma Fin_less_iff [simp]: "(Fin a < Fin b) = (a < b)"
  by (auto simp: less_num_def)

lemma Fin_less_Infinity [simp]: "Fin a < Infinity"
  by (simp add: less_num_def)

lemma not_Infinity_less [simp]: "\<not> Infinity < x"
  by (cases x) (simp_all add: less_num_def)

lemma Infinity_le_iff [simp]: "(Infinity \<le> x) = (x = Infinity)"
  by (cases x) simp_all

lemma Finite_less_iff [simp]: "(Finite a < Finite b) = (a < b)"
  by (auto simp: less_double_def)

lemma Finite_less_PosInf [simp]: "Finite a < PosInf"
  by (simp add: less_double_def)

lemma NegInf_less_Finite [simp]: "NegInf < Finite a"
  by (simp add: less_double_def)

lemma NegInf_less_PosInf [simp]: "NegInf < PosInf"
  by (simp add: less_double_def)

lemma not_PosInf_less [simp]: "\<not> PosInf < x"
  by (cases x) (simp_all add: less_double_def)

lemma not_less_NegInf [simp]: "\<not> x < NegInf"
  by (cases x) (simp_all add: less_double_def)

lemma PosInf_le_iff [simp]: "(PosInf \<le> x) = (x = PosInf)"
  by (cases x) simp_all

lemma le_PosInf [simp]: "x \<le> PosInf"
  by (cases x) simp_all

section \<open>Rounding\<close>

lemma pow2_powi: "pow2 e = 2 powi e"
  by (simp add: pow2_def power_int_def field_simps)

lemma pow2_pos: "0 < pow2 e"
  by (simp add: pow2_powi zero_less_power_int)

lemma pow2_nonzero [simp]: "pow2 e \<noteq> 0"
  using pow2_pos[of e] by simp

declare pow2_pos [simp]

lemma pow2_nonneg [simp]: "0 \<le> pow2 e"
  by (rule less_imp_le[OF pow2_pos])

lemma pow2_add: "pow2 (a + b) = pow2 a * pow2 b"
  by (simp add: pow2_powi power_int_add)

lemma pow2_nat: "0 \<le> e \<Longrightarrow> pow2 e = of_int (2 ^ nat e)"
  by (simp add: pow2_def)

lemma pow2_mono: "a \<le> b \<Longrightarrow> pow2 a \<le> pow2 b"
  by (simp add: pow2_powi power_int_increasing)

lemma pow2_less_imp: "pow2 a < pow2 b \<Longrightarrow> a < b"
  using pow2_mono[of b a] by (cases "a < b") auto

lemma pow2_cancel: "pow2 a * pow2 (- a) = 1"
  using pow2_add[of a "- a"] by (simp add: pow2_def)

lemma round_even_ge: "of_int j \<le> z \<Longrightarrow> j \<le> round_even z"
proof -
  assume "of_int j \<le> z"
  then have "j \<le> \<lfloor>z\<rfloor>" by (simp add: le_floor_iff)
  then show ?thesis by (auto simp: round_even_def Let_def)
qed

lemma round_even_le: "z \<le> of_int j \<Longrightarrow> round_even z \<le> j"
proof -
  assume z: "z \<le> of_int j"
  then have c: "\<lceil>z\<rceil> \<le> j" by (simp add: ceiling_le_iff)
  show ?thesis
  proof (cases "z = of_int \<lfloor>z\<rfloor>")
    case True
    then have "round_even z = \<lfloor>z\<rfloor>" by (simp add: round_even_def Let_def)
    then show ?thesis using c floor_le_ceiling[of z] by linarith
  next
    case False
    then have "\<lceil>z\<rceil> = \<lfloor>z\<rfloor> + 1" by (simp add: ceiling_altdef)
    then show ?thesis using c by (auto simp: round_even_def Let_def)
  qed
qed

lemma round_even_int [simp]: "round_even (of_int j) = j"
  using round_even_ge[of j "of_int j"] round_even_le[of "of_int j" j] by simp

lemma bit_length_bounds:
  "0 < n \<Longrightarrow> 2 ^ (bit_length n - 1) \<le> n \<and> n < 2 ^ bit_length n"
proof (induction n rule: bit_length.induct)
  case (1 n)
  show ?case
  proof (cases "n div 2 \<le> 0")
    case True
    then have "n = 1" using "1.prems" by linarith
    then show ?thesis by (simp add: bit_length.simps[of 1] bit_length.simps[of 0])
  next
    case False
    then have IH: "2 ^ (bit_length (n div 2) - 1) \<le> n div 2" "n div 2 < 2 ^ bit_length (n div 2)"
      using "1.IH" "1.prems" by auto
    have pos: "0 < bit_length (n div 2)" using False by (simp add: bit_length.simps[of "n div 2"])
    have b: "bit_length n = Suc (bit_length (n div 2))"
      using "1.prems" by (simp add: bit_length.simps[of n])
    have "2 * 2 ^ (bit_length (n div 2) - 1) \<le> n" using IH(1) by linarith
    moreover have "2 * 2 ^ (bit_length (n div 2) - 1) = (2::int) ^ bit_length (n div 2)"
      using pos by (cases "bit_length (n div 2)") simp_all
    moreover have "n < 2 * 2 ^ bit_length (n div 2)" using IH(2) by linarith
    ultimately show ?thesis by (simp add: b)
  qed
qed

lemma pow2_diff: "pow2 (a - b) = pow2 a / pow2 b"
proof -
  have "pow2 (a - b) * pow2 b = pow2 a" using pow2_add[of "a - b" b] by simp
  then show ?thesis by (simp add: nonzero_eq_divide_eq)
qed

lemma pow2_int: "pow2 (int n) = 2 ^ n"
  by (simp add: pow2_def)

lemma pow2_Suc: "pow2 (e + 1) = 2 * pow2 e"
  using pow2_add[of e 1] by (simp add: pow2_def)

lemma floor_log2_bounds:
  assumes "0 < x"
  shows "pow2 (floor_log2 x) \<le> x" and "x < pow2 (floor_log2 x + 1)"
proof -
  obtain a b where q: "quotient_of x = (a, b)" by (cases "quotient_of x")
  have b: "0 < b" using quotient_of_denom_pos[OF q] .
  have x: "x = of_int a / of_int b" using quotient_of_div[OF q] .
  have a: "0 < a" using assms b x by (simp add: zero_less_divide_iff)
  define la lb where "la = bit_length a" and "lb = bit_length b"
  define k where "k = int la - int lb"
  have A: "2 ^ (la - 1) \<le> a" "a < 2 ^ la"
    using bit_length_bounds[of a] a by (simp_all add: la_def)
  have B: "2 ^ (lb - 1) \<le> b" "b < 2 ^ lb"
    using bit_length_bounds[of b] b by (simp_all add: lb_def)
  have la: "0 < la" using A(2) a by (cases la) auto
  have lb: "0 < lb" using B(2) b by (cases lb) auto
  have ra: "(2::rat) ^ (la - 1) \<le> of_int a" "of_int a < (2::rat) ^ la"
  proof -
    have "of_int ((2::int) ^ (la - 1)) \<le> (of_int a :: rat)" using A(1) by (rule of_int_le_iff[THEN iffD2])
    then show "(2::rat) ^ (la - 1) \<le> of_int a" by simp
    have "(of_int a :: rat) < of_int ((2::int) ^ la)" using A(2) by (rule of_int_less_iff[THEN iffD2])
    then show "of_int a < (2::rat) ^ la" by simp
  qed
  have rb: "(2::rat) ^ (lb - 1) \<le> of_int b" "of_int b < (2::rat) ^ lb"
  proof -
    have "of_int ((2::int) ^ (lb - 1)) \<le> (of_int b :: rat)" using B(1) by (rule of_int_le_iff[THEN iffD2])
    then show "(2::rat) ^ (lb - 1) \<le> of_int b" by simp
    have "(of_int b :: rat) < of_int ((2::int) ^ lb)" using B(2) by (rule of_int_less_iff[THEN iffD2])
    then show "of_int b < (2::rat) ^ lb" by simp
  qed
  define al be P Q :: rat where "al = of_int a" and "be = of_int b"
    and "P = 2 ^ (la - 1)" and "Q = 2 ^ (lb - 1)"
  have pa: "pow2 (int la) = 2 * P" unfolding pow2_int P_def using la by (cases la) simp_all
  have pb: "pow2 (int lb) = 2 * Q" unfolding pow2_int Q_def using lb by (cases lb) simp_all
  have ea: "(2::rat) ^ la = 2 * P" using pa unfolding pow2_int .
  have eb: "(2::rat) ^ lb = 2 * Q" using pb unfolding pow2_int .
  have P: "0 < P" "P \<le> al" "al < 2 * P"
  proof -
    show "0 < P" by (simp add: P_def)
    show "P \<le> al" using ra(1) unfolding P_def[symmetric] al_def[symmetric] .
    show "al < 2 * P" using ra(2) unfolding ea al_def[symmetric] .
  qed
  have Q: "0 < Q" "Q \<le> be" "be < 2 * Q"
  proof -
    show "0 < Q" by (simp add: Q_def)
    show "Q \<le> be" using rb(1) unfolding Q_def[symmetric] be_def[symmetric] .
    show "be < 2 * Q" using rb(2) unfolding eb be_def[symmetric] .
  qed
  have pk: "pow2 k = P / Q"
    using pow2_diff[of "int la" "int lb"] Q(1) by (simp add: k_def pa pb)
  have xx: "x = al / be" using x by (simp add: al_def be_def)
  have bepos: "0 < be" using Q by linarith
  have alpos: "0 < al" using P by linarith
  have up: "x < 2 * pow2 k"
  proof -
    have "al * Q < (2 * P) * Q" using P(3) Q(1) by (rule mult_strict_right_mono)
    also have "(2 * P) * Q \<le> (2 * P) * be" using Q(2) P(1) by (intro mult_left_mono) simp_all
    finally have "al * Q < (2 * P) * be" .
    then have "al / be < (2 * P) / Q" using bepos Q(1) by (simp add: field_simps)
    then show ?thesis by (simp add: xx pk)
  qed
  have lo: "pow2 k \<le> 2 * x"
  proof -
    have "P * be \<le> al * be" using P(2) bepos by (intro mult_right_mono) simp_all
    also have "al * be \<le> al * (2 * Q)" using Q(3) alpos by (intro mult_left_mono) simp_all
    finally have "P * be \<le> (2 * al) * Q" by simp
    then have "P / Q \<le> (2 * al) / be" using bepos Q(1) by (simp add: field_simps)
    then show ?thesis by (simp add: xx pk)
  qed
  have f: "floor_log2 x = (if pow2 k \<le> x then k else k - 1)"
    by (simp add: floor_log2_def q Let_def k_def la_def lb_def)
  have pk1: "pow2 (k - 1 + 1) = 2 * pow2 (k - 1)" by (rule pow2_Suc)
  show "pow2 (floor_log2 x) \<le> x"
    using lo pk1 by (auto simp: f)
  show "x < pow2 (floor_log2 x + 1)"
  proof (cases "pow2 k \<le> x")
    case True
    then show ?thesis using up by (simp add: f pow2_Suc)
  next
    case False
    then show ?thesis by (simp add: f)
  qed
qed

lemma round_double_pos:
  assumes "0 < y"
  obtains e m where "e = max (floor_log2 y) (- 1022)" and "m = round_even (y / pow2 (e - 52))"
    and "0 \<le> m"
    and "round_double y = (if 2 ^ 1024 \<le> of_int m * pow2 (e - 52) then PosInf
                          else Finite (of_int m * pow2 (e - 52)))"
proof -
  define e where "e = max (floor_log2 y) (- 1022)"
  define m where "m = round_even (y / pow2 (e - 52))"
  have "0 \<le> y / pow2 (e - 52)" using assms pow2_pos[of "e - 52"] by (intro divide_nonneg_pos) simp_all
  then have "of_int 0 \<le> y / pow2 (e - 52)" by simp
  then have m0: "0 \<le> m" unfolding m_def by (rule round_even_ge)
  have "0 \<le> (of_int m :: rat) * pow2 (e - 52)"
    using m0 by (intro mult_nonneg_nonneg) simp_all
  then have "\<bar>of_int m * pow2 (e - 52)\<bar> = of_int m * pow2 (e - 52)" by (rule abs_of_nonneg)
  then have "round_double y = (if 2 ^ 1024 \<le> of_int m * pow2 (e - 52) then PosInf
                          else Finite (of_int m * pow2 (e - 52)))"
    using assms by (simp add: round_double_def Let_def e_def[symmetric] m_def[symmetric])
  then show ?thesis using that[OF e_def m_def m0] by blast
qed

lemma scale_small: "e \<le> 52 \<Longrightarrow> of_int (k * 2 ^ nat (52 - e)) * pow2 (e - 52) = of_int k"
proof -
  assume e: "e \<le> 52"
  have "pow2 (52 - e) = of_int (2 ^ nat (52 - e))" using e by (intro pow2_nat) simp
  moreover have "pow2 (e - 52) * pow2 (52 - e) = 1" using pow2_cancel[of "e - 52"] by simp
  ultimately have "of_int (2 ^ nat (52 - e)) * pow2 (e - 52) = 1" by (simp add: mult.commute)
  then have "of_int k * (of_int (2 ^ nat (52 - e)) * pow2 (e - 52)) = of_int k" by simp
  then show ?thesis by (simp add: mult.assoc)
qed

lemma scale_large: "2 ^ 52 * pow2 (e - 52) = pow2 e"
  using pow2_add[of 52 "e - 52"] by (simp add: pow2_def)

lemma on_grid_round:
  assumes "- 1022 \<le> e" and "\<bar>of_int m * pow2 (e - 52)\<bar> < 2 ^ 1024"
  shows "on_grid (of_int m * pow2 (e - 52))"
proof -
  have "e - 52 + 1074 = e + 1022" by simp
  then have "pow2 (e - 52) * pow2 1074 = pow2 (e + 1022)" using pow2_add[of "e - 52" 1074] by metis
  moreover have "pow2 (e + 1022) = of_int (2 ^ nat (e + 1022))" using assms(1) by (intro pow2_nat) simp
  ultimately have "of_int m * pow2 (e - 52) * pow2 1074 = of_int (m * 2 ^ nat (e + 1022))"
    by (simp add: mult.assoc)
  then have "of_int \<lfloor>of_int m * pow2 (e - 52) * pow2 1074\<rfloor> = of_int m * pow2 (e - 52) * pow2 1074"
    by (simp only: floor_of_int)
  moreover have "pow2 1024 = 2 ^ 1024" by (simp add: pow2_def)
  ultimately show ?thesis using assms(2) unfolding on_grid_def by simp
qed

lemma grid_round_double: "double_grid (round_double x)"
proof (cases "x = 0")
  case True
  then show ?thesis by (simp add: round_double_def double_grid_def on_grid_def)
next
  case False
  define e where "e = max (floor_log2 \<bar>x\<bar>) (- 1022)"
  define m where "m = round_even (x / pow2 (e - 52))"
  have e: "- 1022 \<le> e" by (simp add: e_def)
  have r: "round_double x = (if 2 ^ 1024 \<le> \<bar>of_int m * pow2 (e - 52)\<bar>
                             then (if 0 < x then PosInf else NegInf)
                             else Finite (of_int m * pow2 (e - 52)))"
    using False by (simp add: round_double_def Let_def e_def[symmetric] m_def[symmetric])
  show ?thesis
  proof (cases "2 ^ 1024 \<le> \<bar>of_int m * pow2 (e - 52)\<bar>")
    case True
    then show ?thesis unfolding r by (simp add: double_grid_def)
  next
    case False
    then have "\<bar>of_int m * pow2 (e - 52)\<bar> < 2 ^ 1024" by simp
    from on_grid_round[OF e this] show ?thesis unfolding r using False by (simp add: double_grid_def)
  qed
qed

lemma round_double_lower:
  assumes k0: "0 \<le> k" and k53: "k \<le> 2 ^ 53" and ky: "of_int k \<le> y"
  shows "Finite (of_int k) \<le> round_double y"
proof (cases "y = 0")
  case True
  then have "k = 0" using k0 ky by simp
  then show ?thesis using True by (simp add: round_double_def)
next
  case False
  then have ypos: "0 < y" using k0 ky by (smt (verit) of_int_nonneg order_trans order_le_less)
  obtain e m where e: "e = max (floor_log2 y) (- 1022)"
    and m: "m = round_even (y / pow2 (e - 52))" and m0: "0 \<le> m"
    and r: "round_double y = (if 2 ^ 1024 \<le> of_int m * pow2 (e - 52) then PosInf
                          else Finite (of_int m * pow2 (e - 52)))"
    using round_double_pos[OF ypos] by blast
  define q where "q = pow2 (e - 52)"
  have qpos: "0 < q" by (simp add: q_def)
  have ge: "of_int j * q \<le> of_int m * q" if j: "of_int j * q \<le> y" for j
  proof -
    have "of_int j \<le> y / q" using j qpos by (simp add: pos_le_divide_eq)
    then have "j \<le> m" unfolding m q_def by (rule round_even_ge)
    then show ?thesis using qpos by simp
  qed
  have "of_int k \<le> of_int m * q"
  proof (cases "k = 0")
    case True
    then show ?thesis using m0 qpos by simp
  next
    case False
    then have "1 \<le> k" using k0 by simp
    then have "(1::rat) \<le> of_int k" by simp
    then have y1: "1 \<le> y" using ky by simp
    have "pow2 0 < pow2 (floor_log2 y + 1)"
      using floor_log2_bounds(2)[OF ypos] y1 by (simp add: pow2_def)
    then have "0 < floor_log2 y + 1" by (rule pow2_less_imp)
    then have ee: "e = floor_log2 y" using e by simp
    show ?thesis
    proof (cases "e \<le> 52")
      case True
      define J where "J = k * 2 ^ nat (52 - e)"
      have sc: "of_int J * q = of_int k" unfolding q_def J_def by (rule scale_small[OF True])
      show ?thesis using ge[of J] ky unfolding sc .
    next
      case False
      have "of_int (2 ^ 52) * q = pow2 e" using scale_large[of e] by (simp add: q_def)
      moreover have "pow2 e \<le> y" using floor_log2_bounds(1)[OF ypos] ee by simp
      ultimately have "pow2 e \<le> of_int m * q" using ge[of "2 ^ 52"] by simp
      moreover have "pow2 53 \<le> pow2 e" using False by (intro pow2_mono) simp
      moreover have "(of_int k :: rat) \<le> pow2 53"
      proof -
        have "(of_int k :: rat) \<le> of_int (2 ^ 53)" using k53 by (rule of_int_le_iff[THEN iffD2])
        then show ?thesis by (simp add: pow2_def)
      qed
      ultimately show ?thesis by linarith
    qed
  qed
  then show ?thesis unfolding r q_def by simp
qed

lemma round_double_upper:
  assumes y0: "0 \<le> y" and yk: "y \<le> of_int k" and k53: "k \<le> 2 ^ 53"
  shows "round_double y \<le> Finite (of_int k)"
proof (cases "y = 0")
  case True
  then show ?thesis using yk by (simp add: round_double_def)
next
  case False
  then have ypos: "0 < y" using y0 by simp
  obtain e m where e: "e = max (floor_log2 y) (- 1022)"
    and m: "m = round_even (y / pow2 (e - 52))" and m0: "0 \<le> m"
    and r: "round_double y = (if 2 ^ 1024 \<le> of_int m * pow2 (e - 52) then PosInf
                          else Finite (of_int m * pow2 (e - 52)))"
    using round_double_pos[OF ypos] by blast
  define q where "q = pow2 (e - 52)"
  have qpos: "0 < q" by (simp add: q_def)
  have le: "of_int m * q \<le> of_int j * q" if j: "y \<le> of_int j * q" for j
  proof -
    have "y / q \<le> of_int j" using j qpos by (simp add: pos_divide_le_eq)
    then have "m \<le> j" unfolding m q_def by (rule round_even_le)
    then show ?thesis using qpos by simp
  qed
  have k53r: "(of_int k :: rat) \<le> pow2 53"
  proof -
    have "(of_int k :: rat) \<le> of_int (2 ^ 53)" using k53 by (rule of_int_le_iff[THEN iffD2])
    then show ?thesis by (simp add: pow2_def)
  qed
  have "pow2 (floor_log2 y) \<le> pow2 53"
    using floor_log2_bounds(1)[OF ypos] yk k53r by linarith
  also have "pow2 53 < pow2 54" by (simp add: pow2_def)
  finally have "floor_log2 y < 54" by (rule pow2_less_imp)
  then have e53: "e \<le> 53" using e by simp
  have "of_int m * q \<le> of_int k"
  proof (cases "e \<le> 52")
    case True
    define J where "J = k * 2 ^ nat (52 - e)"
    have sc: "of_int J * q = of_int k" unfolding q_def J_def by (rule scale_small[OF True])
    show ?thesis using le[of J] yk unfolding sc .
  next
    case False
    then have e': "e = 53" using e53 by simp
    then have "floor_log2 y = 53" using e by (simp add: max_def split: if_splits)
    then have "pow2 53 \<le> y" using floor_log2_bounds(1)[OF ypos] by simp
    then have yy: "y = pow2 53" "of_int k = pow2 53" using yk k53r by linarith+
    have "of_int (2 ^ 52) * q = pow2 53" using scale_large[of 53] by (simp add: q_def e')
    then show ?thesis using le[of "2 ^ 52"] yy by simp
  qed
  moreover have "(of_int k :: rat) < 2 ^ 1024"
  proof -
    have "(pow2 53 :: rat) < 2 ^ 1024" by (simp add: pow2_def)
    then show ?thesis using k53r by linarith
  qed
  ultimately show ?thesis unfolding r q_def by simp
qed

lemma round_double_exact:
  assumes "0 \<le> k" and "k \<le> 2 ^ 53"
  shows "round_double (of_int k) = Finite (of_int k)"
proof (rule antisym)
  show "round_double (of_int k) \<le> Finite (of_int k)"
    using assms by (intro round_double_upper) simp_all
  show "Finite (of_int k) \<le> round_double (of_int k)"
    using assms by (intro round_double_lower) simp_all
qed

lemma round_double_numeral [simp]:
  "(numeral n :: int) \<le> 2 ^ 53 \<Longrightarrow> round_double (numeral n) = Finite (numeral n)"
  using round_double_exact[of "numeral n"] by simp

lemma round_double_one [simp]: "round_double 1 = Finite 1"
  using round_double_exact[of 1] by simp

lemma round_double_zero [simp]: "round_double 0 = Finite 0"
  by (simp add: round_double_def)

lemma round_double_nonneg: "0 \<le> y \<Longrightarrow> Finite 0 \<le> round_double y"
  using round_double_lower[of 0 y] by simp

lemma grid_inf [simp]: "double_grid PosInf" "double_grid NegInf"
  by (simp_all add: double_grid_def)

lemma grid_dadd: "dadd x y = Some r \<Longrightarrow> double_grid r"
  by (cases x; cases y) (auto simp: grid_round_double)

lemma rank_less:
  assumes "x < y" and "double_grid x" and "double_grid y"
  shows "rank (Some x) < rank (Some y)"
proof -
  define T B :: rat where "T = pow2 1074" and "B = pow2 1024"
  have T: "0 < T" and B: "0 < B" by (simp_all add: T_def B_def)
  obtain M :: int where M: "B * T = of_int M"
  proof -
    have "B * T = pow2 2098" using pow2_add[of 1024 1074] by (simp add: T_def B_def)
    also have "\<dots> = of_int (2 ^ nat 2098)" by (intro pow2_nat) simp
    finally show ?thesis using that by blast
  qed
  have key: "\<lfloor>(r + B) * T\<rfloor> = \<lfloor>r * T\<rfloor> + M \<and> 0 \<le> \<lfloor>r * T\<rfloor> + M
             \<and> (of_int (\<lfloor>r * T\<rfloor> + M) :: rat) = (r + B) * T
             \<and> (r + B) * T < (B + B) * T"
    if g: "on_grid r" for r
  proof -
    have gi: "of_int \<lfloor>r * T\<rfloor> = r * T" and gb: "\<bar>r\<bar> < B"
      using g unfolding on_grid_def T_def B_def by blast+
    have fr: "(r + B) * T = of_int (\<lfloor>r * T\<rfloor> + M)"
      unfolding of_int_add gi M[symmetric] by (simp add: algebra_simps)
    have f0: "\<lfloor>(r + B) * T\<rfloor> = \<lfloor>r * T\<rfloor> + M" unfolding fr by (rule floor_of_int)
    have "0 \<le> (r + B) * T" using gb T by (intro mult_nonneg_nonneg) linarith+
    then have "(0::rat) \<le> of_int (\<lfloor>r * T\<rfloor> + M)" unfolding fr .
    then have lo: "0 \<le> \<lfloor>r * T\<rfloor> + M" by (simp only: of_int_0_le_iff)
    have "r + B < B + B" using gb by linarith
    then have up: "(r + B) * T < (B + B) * T" using T by (rule mult_strict_right_mono)
    show ?thesis using f0 lo fr up by simp
  qed
  have rk: "rank (Some (Finite r)) = Suc (nat \<lfloor>(r + B) * T\<rfloor>)" for r
    by (simp add: rank_def T_def B_def)
  have rk_top: "rank (Some PosInf) = Suc (Suc (nat \<lfloor>(B + B) * T\<rfloor>))"
    by (simp add: rank_def T_def B_def)
  show ?thesis
  proof (cases x)
    case NegInf
    then show ?thesis using assms(1) by (cases y) (simp_all add: rank_def)
  next
    case PosInf
    then show ?thesis using assms(1) by simp
  next
    case (Finite r)
    have g: "on_grid r" using assms(2) Finite by (simp add: double_grid_def)
    note k = key[OF g]
    show ?thesis
    proof (cases y)
      case NegInf
      then show ?thesis using assms(1) by simp
    next
      case PosInf
      have "\<lfloor>(r + B) * T\<rfloor> \<le> \<lfloor>(B + B) * T\<rfloor>" using k by (intro floor_mono) simp
      then have "nat \<lfloor>(r + B) * T\<rfloor> \<le> nat \<lfloor>(B + B) * T\<rfloor>" by simp
      then show ?thesis unfolding \<open>x = Finite r\<close> PosInf rk rk_top by simp
    next
      case y: (Finite r')
      have g': "on_grid r'" using assms(3) y by (simp add: double_grid_def)
      note k' = key[OF g']
      have "r < r'" using assms(1) Finite y by simp
      then have "(r + B) * T < (r' + B) * T" using T by (intro mult_strict_right_mono) simp_all
      then have "(of_int (\<lfloor>r * T\<rfloor> + M) :: rat) < of_int (\<lfloor>r' * T\<rfloor> + M)" using k k' by simp
      then have "\<lfloor>r * T\<rfloor> + M < \<lfloor>r' * T\<rfloor> + M" by (simp only: of_int_less_iff)
      then have "nat \<lfloor>(r + B) * T\<rfloor> < nat \<lfloor>(r' + B) * T\<rfloor>" using k k' by simp
      then show ?thesis unfolding Finite y rk by simp
    qed
  qed
qed

section \<open>dijkstra: termination on every input\<close>

lemma set_push: "set (push k v d) = insert (k, v) (set d)"
  using push_mset[of k v d] by (metis set_mset_add_mset_insert set_mset_mset)

lemma length_push: "length (push k v d) = Suc (length d)"
  using push_mset[of k v d] by (metis size_add_mset size_mset)

lemma pop_nonempty:
  assumes "d \<noteq> []"
  obtains e h where "pop d = (Some e, h)" "mset d = add_mset e (mset h)"
proof -
  have "fst (pop d) = Some (d ! 0)" using assms by (rule pop_Some)
  moreover have "mset d = add_mset (d ! 0) (mset (snd (pop d)))" using pop_mset[OF assms] by simp
  ultimately show ?thesis using that[of "d ! 0" "snd (pop d)"] by (cases "pop d") auto
qed

lemma relax_Cons [simp]: "relax u ((v, w) # es) s = relax u es (relax1 u v w s)"
  by (simp add: relax1_def)

declare relax.simps(2) [simp del]

lemma relax1_eq:
  "relax1 u v w s =
     (case (dist s u, dist s v) of
        (Some du, Some dv) \<Rightarrow>
          (case dadd du w of
             Some r \<Rightarrow>
               if r < dv then s\<lparr>dist := (dist s)(v \<mapsto> r), pq := push r v (pq s)\<rparr> else s
           | None \<Rightarrow> s)
      | _ \<Rightarrow> s)"
  by (auto simp: relax1_def js_gt_def js_add_def split: option.splits)

lemma relax1_cases:
  obtains (same) "relax1 u v w s = s"
  | (upd) du dv r where "dist s u = Some du" "dist s v = Some dv" "dadd du w = Some r" "r < dv"
      "relax1 u v w s = s\<lparr>dist := (dist s)(v \<mapsto> r), pq := push r v (pq s)\<rparr>"
proof -
  have "relax1 u v w s = s
      \<or> (\<exists>du dv r. dist s u = Some du \<and> dist s v = Some dv \<and> dadd du w = Some r \<and> r < dv
            \<and> relax1 u v w s = s\<lparr>dist := (dist s)(v \<mapsto> r), pq := push r v (pq s)\<rparr>)"
    by (auto simp: relax1_eq split: option.splits)
  then show ?thesis using same upd by blast
qed

lemma sum_upd_fin:
  fixes f :: "'b option \<Rightarrow> nat"
  assumes "finite B" and "c \<in> B"
  shows "(\<Sum>x\<in>B. f ((G(c \<mapsto> k)) x)) + f (G c) = (\<Sum>x\<in>B. f (G x)) + f (Some k)"
proof -
  have 1: "(\<Sum>x\<in>B. f ((G(c \<mapsto> k)) x)) = f (Some k) + (\<Sum>x\<in>B - {c}. f ((G(c \<mapsto> k)) x))"
    using sum.remove[OF assms, of "\<lambda>x. f ((G(c \<mapsto> k)) x)"] by simp
  have 2: "(\<Sum>x\<in>B. f (G x)) = f (G c) + (\<Sum>x\<in>B - {c}. f (G x))"
    using sum.remove[OF assms, of "\<lambda>x. f (G x)"] by simp
  have 3: "(\<Sum>x\<in>B - {c}. f ((G(c \<mapsto> k)) x)) = (\<Sum>x\<in>B - {c}. f (G x))"
    by (rule sum.cong) auto
  show ?thesis using 1 2 3 by simp
qed

lemma wf_dless: "wf dless"
  unfolding dless_def by (intro wf_inv_image wf_lex_prod wf_less_than)

lemma dprogress_trans: "dprogress s'' s' \<Longrightarrow> dprogress s' s \<Longrightarrow> dprogress s'' s"
  by (auto simp: dprogress_def)

lemma dprogress_dless: "dprogress s' s \<Longrightarrow> (s', s) \<in> dless"
  by (auto simp: dprogress_def dless_def dmeasure_def)

lemma relax1_progress:
  assumes G: "dist_grid s"
  shows "dist_grid (relax1 u v w s) \<and> (relax1 u v w s = s \<or> dprogress (relax1 u v w s) s)"
proof (cases rule: relax1_cases[of u v w s])
  case same
  then show ?thesis using G by simp
next
  case (upd du dv r)
  define s' where "s' = s\<lparr>dist := (dist s)(v \<mapsto> r), pq := push r v (pq s)\<rparr>"
  have eq: "relax1 u v w s = s'" using upd(5) by (simp add: s'_def)
  have fin: "finite (dom (dist s))" and gr: "\<And>v x. dist s v = Some x \<Longrightarrow> double_grid x"
    using G unfolding dist_grid_def by blast+
  have vin: "v \<in> dom (dist s)" using upd(2) by auto
  have dom': "dom (dist s') = dom (dist s)" using vin by (auto simp: s'_def)
  have gr': "double_grid r" using grid_dadd[OF upd(3)] .
  have G': "dist_grid s'"
    unfolding dist_grid_def dom' using fin gr gr' by (auto simp: s'_def split: if_splits)
  have "rank (Some r) < rank (Some dv)" using rank_less[OF upd(4) gr' gr[OF upd(2)]] .
  moreover have "(\<Sum>x\<in>dom (dist s). rank (dist s' x)) + rank (Some dv)
               = (\<Sum>x\<in>dom (dist s). rank (dist s x)) + rank (Some r)"
    using sum_upd_fin[OF fin vin, of rank "dist s" r] upd(2) by (simp add: s'_def)
  ultimately have "(\<Sum>x\<in>dom (dist s). rank (dist s' x)) < (\<Sum>x\<in>dom (dist s). rank (dist s x))"
    by linarith
  then have "dprogress s' s" unfolding dprogress_def dmeasure_def dom' by simp
  then show ?thesis using G' eq by simp
qed

lemma relax_progress:
  "dist_grid s \<Longrightarrow> dist_grid (relax u es s) \<and> (relax u es s = s \<or> dprogress (relax u es s) s)"
proof (induction es arbitrary: s)
  case Nil
  then show ?case by simp
next
  case (Cons e es)
  obtain v w where vw: "e = (v, w)" by (cases e)
  note 1 = relax1_progress[OF Cons.prems, of u v w]
  note 2 = Cons.IH[of "relax1 u v w s"]
  show ?case using 1 2 vw dprogress_trans by auto
qed

lemma dijkstra_loop_returns:
  "dist_grid s \<Longrightarrow> \<exists>r. dijkstra_loop s = Some r"
proof (induction s rule: wf_induct_rule[OF wf_dless])
  case (1 s)
  show ?case
  proof (cases "pq s = []")
    case True
    then have "dijkstra_loop s = Some (Inr s)"
      by (subst dijkstra_loop.simps) (simp add: size_heap_def)
    then show ?thesis by simp
  next
    case False
    obtain e h where ph: "pop (pq s) = (Some e, h)" "mset (pq s) = add_mset e (mset h)"
      using pop_nonempty[OF False] by blast
    obtain d u where e: "e = (d, u)" by (cases e)
    define s1 where "s1 = s\<lparr>pq := h\<rparr>"
    have lenh: "length (pq s) = Suc (length h)"
      using ph(2) by (metis size_add_mset size_mset)
    have less1: "(s1, s) \<in> dless"
      using lenh by (simp add: dless_def dmeasure_def s1_def)
    have G1: "dist_grid s1" using "1.prems" by (simp add: dist_grid_def s1_def)
    show ?thesis
    proof (cases "js_gt (Some d) (dist s u)")
      case True
      have "dijkstra_loop s = dijkstra_loop s1"
        using False ph e True by (subst dijkstra_loop.simps) (simp add: size_heap_def s1_def)
      then show ?thesis using "1.IH"[OF less1 G1] by simp
    next
      case stale: False
      show ?thesis
      proof (cases "js_index (adj s) u")
        case None
        have "dijkstra_loop s = Some (Inl TypeError)"
          using False ph e stale None by (subst dijkstra_loop.simps) (simp add: size_heap_def)
        then show ?thesis by simp
      next
        case (Some es)
        define s2 where "s2 = relax u es s1"
        have eq: "dijkstra_loop s = dijkstra_loop s2"
          using False ph e stale Some
          by (subst dijkstra_loop.simps) (simp add: size_heap_def s1_def s2_def)
        have G2: "dist_grid s2" and P: "s2 = s1 \<or> dprogress s2 s1"
          unfolding s2_def using relax_progress[OF G1, of u es] by blast+
        have "(s2, s) \<in> dless"
        proof (cases "s2 = s1")
          case True
          then show ?thesis using less1 by simp
        next
          case False
          then have "dprogress s2 s1" using P by simp
          moreover have "dom (dist s1) = dom (dist s)" "fst (dmeasure s1) = fst (dmeasure s)"
            by (simp_all add: s1_def dmeasure_def)
          ultimately have "dprogress s2 s" unfolding dprogress_def by simp
          then show ?thesis by (rule dprogress_dless)
        qed
        then show ?thesis using "1.IH"[OF _ G2] eq by simp
      qed
    qed
  qed
qed

lemma dist_grid_init: "dist_grid (dijkstra_init a src)"
proof -
  have "dom (dist (dijkstra_init a src)) \<subseteq> insert src {0..<int (length a)}"
    by (auto simp: dijkstra_init_def new_array_def Let_def split: if_splits)
  then have "finite (dom (dist (dijkstra_init a src)))" by (rule finite_subset) simp
  moreover have "double_grid x" if "dist (dijkstra_init a src) v = Some x" for v x
    using that
    by (auto simp: dijkstra_init_def new_array_def Let_def double_grid_def on_grid_def split: if_splits)
  ultimately show ?thesis unfolding dist_grid_def by blast
qed

lemma dijkstra_run_returns: "\<exists>r. dijkstra_run a src = Some r"
  unfolding dijkstra_run_def by (rule dijkstra_loop_returns[OF dist_grid_init])

section \<open>dijkstra: shortest distances on non-negative integer weights\<close>

lemma nat_weightD: "nat_weight w \<Longrightarrow> \<exists>k\<ge>0. w = Finite (of_int k)"
proof -
  assume "nat_weight w"
  then obtain x where x: "w = Finite x" "0 \<le> x" "of_int \<lfloor>x\<rfloor> = x"
    by (cases w) (auto simp: nat_weight_def)
  have "0 \<le> \<lfloor>x\<rfloor>" using x(2) by simp
  then show ?thesis using x(1,3) by metis
qed

lemma nat_weight_edge:
  "nat_weights a \<Longrightarrow> js_index a u = Some es \<Longrightarrow> (v, w) \<in> set es \<Longrightarrow>
     \<exists>k\<ge>0. w = Finite (of_int k)"
proof -
  assume nw: "nat_weights a" and es: "js_index a u = Some es" and e: "(v, w) \<in> set es"
  have "es \<in> set a" using es by (auto simp: js_index_def split: if_splits)
  then have "nat_weight w" using nw e unfolding nat_weights_def by blast
  then show ?thesis by (rule nat_weightD)
qed

lemma walk_nat: "walk a src v d \<Longrightarrow> nat_weights a \<Longrightarrow> \<exists>n\<ge>0. d = of_int n"
proof (induction rule: walk.induct)
  case walk_src
  then show ?case by (intro exI[of _ 0]) simp
next
  case (walk_step u d es v w)
  obtain n where n: "0 \<le> n" "d = of_int n" using walk_step.IH[OF walk_step.prems] by blast
  obtain k where k: "0 \<le> k" "Finite w = Finite (of_int k)"
    using nat_weight_edge[OF walk_step.prems walk_step.hyps(2,3)] by blast
  show ?case using n k by (intro exI[of _ "n + k"]) simp
qed

lemma walk_nonneg: "walk a src v d \<Longrightarrow> nat_weights a \<Longrightarrow> 0 \<le> d"
  using walk_nat[of a src v d] by auto

lemma dinv_local_fin:
  assumes "dinv_local a src s" and "dist s v = Some (Finite r)"
  shows "0 \<le> r" and "\<exists>d. walk a src v d"
    and "\<And>k. 0 \<le> k \<Longrightarrow> k \<le> 2 ^ 53 \<Longrightarrow> (\<And>d. walk a src v d \<Longrightarrow> of_int k \<le> d) \<Longrightarrow> of_int k \<le> r"
  using assms unfolding dinv_local_def by blast+

lemma dinv_local_facts:
  assumes "dinv_local a src s"
  shows "adj s = a" and "\<And>v. (dist s v \<noteq> None) = is_node a v"
    and "\<And>v. dist s v \<noteq> Some NegInf" and "dist s src = Some (Finite 0)"
    and "\<And>k v. (k, v) \<in> set (pq s) \<Longrightarrow> \<exists>x. dist s v = Some x \<and> x \<le> k"
  using assms unfolding dinv_local_def by blast+

lemma relax1_local:
  assumes L: "dinv_local a src s" and nw: "nat_weights a"
    and e: "js_index a u = Some es" "(v, w) \<in> set es"
  shows "dinv_local a src (relax1 u v w s)"
proof (cases rule: relax1_cases[of u v w s])
  case same
  then show ?thesis using L by simp
next
  case (upd du dv r)
  define s' where "s' = s\<lparr>dist := (dist s)(v \<mapsto> r), pq := push r v (pq s)\<rparr>"
  have eq: "relax1 u v w s = s'" using upd(5) by (simp add: s'_def)
  obtain kw where kw: "0 \<le> kw" "w = Finite (of_int kw)" using nat_weight_edge[OF nw e] by blast
  have "du \<noteq> NegInf" using dinv_local_facts(3)[OF L, of u] upd(1) by auto
  moreover have "du \<noteq> PosInf" using upd(3,4) kw(2) by auto
  ultimately obtain x where x: "du = Finite x" by (cases du) auto
  have r: "r = round_double (x + of_int kw)" using upd(3) x kw(2) by simp
  note U = dinv_local_fin[OF L upd(1)[unfolded x]]
  have y0: "0 \<le> x + of_int kw" using U(1) kw(1) by simp
  have "Finite 0 \<le> r" unfolding r using y0 by (rule round_double_nonneg)
  moreover have "r \<noteq> PosInf" using upd(4) by auto
  ultimately obtain r' where r': "r = Finite r'" "0 \<le> r'" by (cases r) auto
  obtain du' where wu: "walk a src u du'" using U(2) by blast
  have wv: "walk a src v (du' + of_int kw)" using walk_step[OF wu e(1)] e(2) kw(2) by simp
  have lb: "of_int k \<le> r'"
    if k: "0 \<le> k" "k \<le> 2 ^ 53" and kl: "\<And>d. walk a src v d \<Longrightarrow> of_int k \<le> d" for k
  proof -
    define ku where "ku = max (k - kw) 0"
    have "of_int ku \<le> d" if w: "walk a src u d" for d
    proof -
      have "walk a src v (d + of_int kw)" using walk_step[OF w e(1)] e(2) kw(2) by simp
      then have "of_int k \<le> d + of_int kw" by (rule kl)
      then have "of_int (k - kw) \<le> d" by simp
      moreover have "0 \<le> d" using walk_nonneg[OF w nw] .
      ultimately show ?thesis by (simp add: ku_def max_def)
    qed
    moreover have "0 \<le> ku" "ku \<le> 2 ^ 53" using k kw(1) by (simp_all add: ku_def)
    ultimately have "of_int ku \<le> x" using U(3)[of ku] by blast
    moreover have "k - kw \<le> ku" by (simp add: ku_def)
    then have "(of_int (k - kw) :: rat) \<le> of_int ku" by (simp only: of_int_le_iff)
    ultimately have "of_int k \<le> x + of_int kw" by simp
    then have "Finite (of_int k) \<le> round_double (x + of_int kw)"
      using k by (intro round_double_lower)
    then have "Finite (of_int k) \<le> Finite r'" unfolding r[symmetric] r'(1) .
    then show ?thesis by simp
  qed
  have 1: "adj s' = a" using dinv_local_facts(1)[OF L] by (simp add: s'_def)
  have 2: "\<forall>v'. (dist s' v' \<noteq> None) = is_node a v'"
    using dinv_local_facts(2)[OF L] upd(2) by (auto simp: s'_def)
  have 3: "\<forall>v'. dist s' v' \<noteq> Some NegInf"
    using dinv_local_facts(3)[OF L] r'(1) by (auto simp: s'_def)
  have 4: "\<forall>v' q. dist s' v' = Some (Finite q) \<longrightarrow>
            0 \<le> q \<and> (\<exists>d. walk a src v' d)
            \<and> (\<forall>k. 0 \<le> k \<and> k \<le> 2 ^ 53 \<and> (\<forall>d. walk a src v' d \<longrightarrow> of_int k \<le> d) \<longrightarrow> of_int k \<le> q)"
  proof (intro allI impI)
    fix v' q assume q: "dist s' v' = Some (Finite q)"
    show "0 \<le> q \<and> (\<exists>d. walk a src v' d)
            \<and> (\<forall>k. 0 \<le> k \<and> k \<le> 2 ^ 53 \<and> (\<forall>d. walk a src v' d \<longrightarrow> of_int k \<le> d) \<longrightarrow> of_int k \<le> q)"
    proof (cases "v' = v")
      case True
      then have "q = r'" using q r'(1) by (simp add: s'_def)
      then show ?thesis using True r'(2) wv lb by blast
    next
      case False
      then have "dist s v' = Some (Finite q)" using q by (simp add: s'_def)
      from dinv_local_fin[OF L this] show ?thesis by blast
    qed
  qed
  have 5: "dist s' src = Some (Finite 0)"
  proof (cases "v = src")
    case True
    then have "dv = Finite 0" using dinv_local_facts(4)[OF L] upd(2) by simp
    then show ?thesis using upd(4) r' by simp
  next
    case False
    then show ?thesis using dinv_local_facts(4)[OF L] by (simp add: s'_def)
  qed
  have 6: "\<forall>k v'. (k, v') \<in> set (pq s') \<longrightarrow> (\<exists>y. dist s' v' = Some y \<and> y \<le> k)"
  proof -
    have "\<exists>y. dist s' v' = Some y \<and> y \<le> k" if kv: "(k, v') \<in> set (pq s)" for k v'
    proof -
      obtain y where y: "dist s v' = Some y" "y \<le> k" using dinv_local_facts(5)[OF L kv] by blast
      show ?thesis
      proof (cases "v' = v")
        case True
        then have "r \<le> k" using y upd(2,4) by auto
        then show ?thesis using True by (simp add: s'_def)
      next
        case False
        then show ?thesis using y by (simp add: s'_def)
      qed
    qed
    then show ?thesis by (auto simp: s'_def set_push)
  qed
  show ?thesis unfolding eq dinv_local_def using 1 2 3 4 5 6 by blast
qed

lemma relax_local:
  assumes nw: "nat_weights a" and e: "js_index a u = Some es0"
  shows "dinv_local a src s \<Longrightarrow> set es \<subseteq> set es0 \<Longrightarrow> dinv_local a src (relax u es s)"
proof (induction es arbitrary: s)
  case Nil
  then show ?case by simp
next
  case (Cons e es)
  obtain v w where vw: "e = (v, w)" by (cases e)
  have "dinv_local a src (relax1 u v w s)"
    using relax1_local[OF Cons.prems(1) nw e] Cons.prems(2) vw by simp
  then show ?case using Cons.IH Cons.prems(2) vw by simp
qed

lemma relax1_mono:
  "dist (relax1 u v w s) v' = Some x \<Longrightarrow> \<exists>y. dist s v' = Some y \<and> x \<le> y"
  by (cases rule: relax1_cases[of u v w s]) (auto split: if_splits)

lemma relax_mono:
  "dist (relax u es s) v' = Some x \<Longrightarrow> \<exists>y. dist s v' = Some y \<and> x \<le> y"
proof (induction es arbitrary: s x)
  case Nil
  then show ?case by simp
next
  case (Cons e es)
  obtain v w where vw: "e = (v, w)" by (cases e)
  obtain y where y: "dist (relax1 u v w s) v' = Some y" "x \<le> y"
    using Cons.IH[of "relax1 u v w s" x] Cons.prems vw by auto
  then show ?case using relax1_mono[OF y(1)] by auto
qed

lemma relax1_pq_subset: "set (pq s) \<subseteq> set (pq (relax1 u v w s))"
  by (cases rule: relax1_cases[of u v w s]) (auto simp: set_push)

lemma relax_pq_subset: "set (pq s) \<subseteq> set (pq (relax u es s))"
proof (induction es arbitrary: s)
  case Nil
  then show ?case by simp
next
  case (Cons e es)
  obtain v w where vw: "e = (v, w)" by (cases e)
  show ?case using Cons.IH[of "relax1 u v w s"] relax1_pq_subset[of s u v w] vw by auto
qed

lemma relax1_changed:
  "dist (relax1 u v w s) v' = Some x \<Longrightarrow>
     dist s v' = Some x \<or> (x, v') \<in> set (pq (relax1 u v w s))"
  by (cases rule: relax1_cases[of u v w s]) (auto simp: set_push split: if_splits)

lemma relax_changed:
  "dist (relax u es s) v' = Some x \<Longrightarrow>
     dist s v' = Some x \<or> (x, v') \<in> set (pq (relax u es s))"
proof (induction es arbitrary: s)
  case Nil
  then show ?case by simp
next
  case (Cons e es)
  obtain v w where vw: "e = (v, w)" by (cases e)
  have "dist (relax1 u v w s) v' = Some x \<or> (x, v') \<in> set (pq (relax u es (relax1 u v w s)))"
    using Cons.IH[of "relax1 u v w s"] Cons.prems vw by simp
  then show ?case
    using relax1_changed[of u v w s v' x] relax_pq_subset[of "relax1 u v w s" u es] vw
    by auto
qed

lemma js_gt_mono: "js_gt (Some x) b \<Longrightarrow> x \<le> y \<Longrightarrow> js_gt (Some y) b"
  by (auto simp: js_gt_def split: option.splits)

lemma relax1_head: "\<not> js_gt (dist (relax1 u v w s) v) (js_add (dist s u) (Some w))"
proof (cases "js_gt (dist s v) (js_add (dist s u) (Some w))")
  case False
  then show ?thesis by (simp add: relax1_def)
next
  case True
  then obtain r where r: "js_add (dist s u) (Some w) = Some r"
    by (auto simp: js_gt_def split: option.splits)
  then show ?thesis using True by (simp add: relax1_def js_gt_def)
qed

lemma relax_relaxed:
  "dist (relax u es s) u = dist s u \<Longrightarrow>
     \<forall>(v, w) \<in> set es. \<not> js_gt (dist (relax u es s) v) (js_add (dist s u) (Some w))"
proof (induction es arbitrary: s)
  case Nil
  then show ?case by simp
next
  case (Cons e es)
  obtain v w where vw: "e = (v, w)" by (cases e)
  define s1 where "s1 = relax1 u v w s"
  define f where "f = relax u es s1"
  have fu: "dist f u = dist s u" using Cons.prems vw by (simp add: f_def s1_def)
  show ?case
  proof (cases "dist s u")
    case None
    then show ?thesis by (simp add: js_add_def js_gt_def split: option.splits)
  next
    case (Some x)
    obtain y where y: "dist s1 u = Some y" "x \<le> y"
      using relax_mono[of u es s1 u x] fu Some by (auto simp: f_def)
    obtain z where z: "dist s u = Some z" "y \<le> z"
      using relax1_mono[of u v w s u y] y(1) by (auto simp: s1_def)
    have s1u: "dist s1 u = dist s u" using y z Some by simp
    have IH: "\<forall>(v', w') \<in> set es. \<not> js_gt (dist f v') (js_add (dist s u) (Some w'))"
      using Cons.IH[of s1] fu s1u by (simp add: f_def)
    have hd: "\<not> js_gt (dist f v) (js_add (dist s u) (Some w))"
    proof
      assume g: "js_gt (dist f v) (js_add (dist s u) (Some w))"
      then obtain q where q: "dist f v = Some q" by (auto simp: js_gt_def split: option.splits)
      obtain p where p: "dist s1 v = Some p" "q \<le> p"
        using relax_mono[of u es s1 v q] q by (auto simp: f_def)
      have "js_gt (dist s1 v) (js_add (dist s u) (Some w))"
        using js_gt_mono[OF g[unfolded q] p(2)] p(1) by simp
      then show False using relax1_head[of u v w s] by (simp add: s1_def)
    qed
    show ?thesis using IH hd vw by (simp add: f_def s1_def)
  qed
qed

lemma relaxed_mono:
  assumes "relaxed a s u du" and "\<And>v x. dist s' v = Some x \<Longrightarrow> \<exists>y. dist s v = Some y \<and> x \<le> y"
  shows "relaxed a s' u du"
  unfolding relaxed_def
proof (intro allI impI ballI)
  fix es e assume es: "js_index a u = Some es" and e: "e \<in> set es"
  obtain v w where vw: "e = (v, w)" by (cases e)
  have "\<not> js_gt (dist s' v) (js_add (Some du) (Some w))"
  proof
    assume g: "js_gt (dist s' v) (js_add (Some du) (Some w))"
    then obtain q where q: "dist s' v = Some q" by (auto simp: js_gt_def split: option.splits)
    obtain p where p: "dist s v = Some p" "q \<le> p" using assms(2)[OF q] by blast
    have "js_gt (dist s v) (js_add (Some du) (Some w))"
      using js_gt_mono[OF g[unfolded q] p(2)] p(1) by simp
    then show False using assms(1) es e vw by (auto simp: relaxed_def)
  qed
  then show "case e of (v, w) \<Rightarrow> \<not> js_gt (dist s' v) (js_add (Some du) (Some w))"
    using vw by simp
qed

lemma dinv_local_dom: "dinv_local a src s \<Longrightarrow> is_node a v \<Longrightarrow> \<exists>x. dist s v = Some x"
  unfolding dinv_local_def by (meson not_None_eq)

lemma dijkstra_step:
  assumes I: "dinv a src s" and nw: "nat_weights a" and ne: "pq s \<noteq> []"
  shows "\<exists>s2. dijkstra_loop s = dijkstra_loop s2 \<and> dinv a src s2 \<and> (s2, s) \<in> dless"
proof -
  obtain e h where ph: "pop (pq s) = (Some e, h)" "mset (pq s) = add_mset e (mset h)"
    using pop_nonempty[OF ne] by blast
  obtain d u where e: "e = (d, u)" by (cases e)
  define s1 where "s1 = s\<lparr>pq := h\<rparr>"
  have seth: "set (pq s) = insert (d, u) (set h)"
    using ph(2) e by (metis set_mset_add_mset_insert set_mset_mset)
  have lenh: "length (pq s) = Suc (length h)"
    using ph(2) by (metis size_add_mset size_mset)
  have L: "dinv_local a src s" and G: "dist_grid s" using I by (simp_all add: dinv_def)
  have R: "\<And>u' r. dist s u' = Some (Finite r) \<Longrightarrow>
             (Finite r, u') \<in> set (pq s) \<or> relaxed a s u' (Finite r)"
    using I by (simp add: dinv_def)
  have L1: "dinv_local a src s1"
    using L seth by (auto simp: dinv_local_def s1_def)
  have G1: "dist_grid s1" using G by (simp add: dist_grid_def s1_def)
  have less1: "(s1, s) \<in> dless"
    using lenh by (simp add: dless_def dmeasure_def s1_def)
  obtain x where x: "dist s u = Some x" "x \<le> d"
    using dinv_local_facts(5)[OF L, of d u] seth by auto
  have unode: "is_node a u" using dinv_local_facts(2)[OF L, of u] x(1) by auto
  then obtain es where es: "js_index a u = Some es" by (auto simp: js_index_def is_node_def)
  have adj0: "adj s = a" using dinv_local_facts(1)[OF L] .
  show ?thesis
  proof (cases "js_gt (Some d) (dist s u)")
    case True
    have eq: "dijkstra_loop s = dijkstra_loop s1"
      using ne ph e True by (subst dijkstra_loop.simps) (simp add: size_heap_def s1_def)
    have xd: "x < d" using True x(1) by (simp add: js_gt_def)
    have "(Finite r, u') \<in> set (pq s1) \<or> relaxed a s1 u' (Finite r)"
      if du': "dist s1 u' = Some (Finite r)" for u' r
    proof -
      have d0: "dist s u' = Some (Finite r)" using du' by (simp add: s1_def)
      have "(Finite r, u') \<noteq> (d, u)" using d0 x(1) xd by auto
      then have "(Finite r, u') \<in> set (pq s) \<Longrightarrow> (Finite r, u') \<in> set (pq s1)"
        using seth by (auto simp: s1_def)
      moreover have "relaxed a s u' (Finite r) \<Longrightarrow> relaxed a s1 u' (Finite r)"
        by (simp add: relaxed_def s1_def)
      ultimately show ?thesis using R[OF d0] by blast
    qed
    then have "dinv a src s1" using L1 G1 by (simp add: dinv_def)
    then show ?thesis using eq less1 by blast
  next
    case False
    define s2 where "s2 = relax u es s1"
    have eq: "dijkstra_loop s = dijkstra_loop s2"
      using ne ph e False es adj0
      by (subst dijkstra_loop.simps) (simp add: size_heap_def s1_def s2_def)
    have xd: "x = d" using False x by (simp add: js_gt_def)
    have L2: "dinv_local a src s2"
      unfolding s2_def using relax_local[OF nw es L1] by simp
    have G2: "dist_grid s2" and P: "s2 = s1 \<or> dprogress s2 s1"
      unfolding s2_def using relax_progress[OF G1, of u es] by blast+
    have mono: "\<And>v y. dist s2 v = Some y \<Longrightarrow> \<exists>z. dist s v = Some z \<and> y \<le> z"
      using relax_mono[of u es s1] by (simp add: s2_def s1_def)
    have "(Finite r, u') \<in> set (pq s2) \<or> relaxed a s2 u' (Finite r)"
      if du': "dist s2 u' = Some (Finite r)" for u' r
    proof -
      consider (new) "(Finite r, u') \<in> set (pq s2)" | (old) "dist s1 u' = Some (Finite r)"
        using relax_changed[of u es s1 u' "Finite r"] du' by (auto simp: s2_def)
      then show ?thesis
      proof cases
        case new
        then show ?thesis by simp
      next
        case old
        then have d0: "dist s u' = Some (Finite r)" by (simp add: s1_def)
        consider (rel) "relaxed a s u' (Finite r)" | (popped) "(Finite r, u') = (d, u)"
          | (queued) "(Finite r, u') \<in> set h"
          using R[OF d0] seth by auto
        then show ?thesis
        proof cases
          case rel
          then show ?thesis using relaxed_mono[OF rel mono] by simp
        next
          case queued
          then have "(Finite r, u') \<in> set (pq s2)"
            using relax_pq_subset[of s1 u es] by (auto simp: s2_def s1_def)
          then show ?thesis by simp
        next
          case popped
          then have u': "u' = u" and du: "dist s1 u = Some (Finite r)"
            using old by auto
          have same: "dist (relax u es s1) u = dist s1 u" using du' u' du by (simp add: s2_def)
          have "\<forall>(v, w) \<in> set es. \<not> js_gt (dist s2 v) (js_add (Some (Finite r)) (Some w))"
            using relax_relaxed[OF same] du by (simp add: s2_def)
          then have "relaxed a s2 u' (Finite r)" using es u' by (simp add: relaxed_def)
          then show ?thesis by simp
        qed
      qed
    qed
    then have I2: "dinv a src s2" using L2 G2 by (simp add: dinv_def)
    have "(s2, s) \<in> dless"
    proof (cases "s2 = s1")
      case True
      then show ?thesis using less1 by simp
    next
      case False
      then have "dprogress s2 s1" using P by simp
      moreover have "dom (dist s1) = dom (dist s)" "fst (dmeasure s1) = fst (dmeasure s)"
        by (simp_all add: s1_def dmeasure_def)
      ultimately have "dprogress s2 s" unfolding dprogress_def by simp
      then show ?thesis by (rule dprogress_dless)
    qed
    then show ?thesis using eq I2 by blast
  qed
qed

lemma dijkstra_loop_total:
  assumes nw: "nat_weights a"
  shows "dinv a src s \<Longrightarrow> \<exists>s'. dijkstra_loop s = Some (Inr s') \<and> dinv a src s' \<and> pq s' = []"
proof (induction s rule: wf_induct_rule[OF wf_dless])
  case (1 s)
  show ?case
  proof (cases "pq s = []")
    case True
    then have "dijkstra_loop s = Some (Inr s)"
      by (subst dijkstra_loop.simps) (simp add: size_heap_def)
    then show ?thesis using "1.prems" True by simp
  next
    case False
    obtain s2 where s2: "dijkstra_loop s = dijkstra_loop s2" "dinv a src s2" "(s2, s) \<in> dless"
      using dijkstra_step[OF "1.prems" nw False] by blast
    show ?thesis using "1.IH"[OF s2(3) s2(2)] s2(1) by simp
  qed
qed

lemma dinv_init:
  assumes "is_node a src"
  shows "dinv a src (dijkstra_init a src)"
proof -
  have p: "set (push (Finite 0) src ([] :: int heap)) = {(Finite 0, src)}" by (simp add: set_push)
  have d: "dist (dijkstra_init a src) v = Some x \<Longrightarrow>
             (v = src \<and> x = Finite 0) \<or> x = PosInf" for v x
    by (auto simp: dijkstra_init_def new_array_def Let_def split: if_splits)
  have "dinv_local a src (dijkstra_init a src)"
    unfolding dinv_local_def
  proof (intro conjI allI impI)
    show "adj (dijkstra_init a src) = a" by (simp add: dijkstra_init_def Let_def)
    show "(dist (dijkstra_init a src) v \<noteq> None) = is_node a v" for v
      using assms by (auto simp: dijkstra_init_def new_array_def is_node_def Let_def)
    show "dist (dijkstra_init a src) v \<noteq> Some NegInf" for v using d[of v NegInf] by auto
    show "dist (dijkstra_init a src) src = Some (Finite 0)"
      by (simp add: dijkstra_init_def Let_def)
    show "\<exists>x. dist (dijkstra_init a src) v = Some x \<and> x \<le> k"
      if "(k, v) \<in> set (pq (dijkstra_init a src))" for k v
      using that p by (auto simp: dijkstra_init_def Let_def)
  next
    fix v r assume r: "dist (dijkstra_init a src) v = Some (Finite r)"
    then have vr: "v = src" "r = 0" using d[OF r] by auto
    show "0 \<le> r" using vr by simp
    show "\<exists>d. walk a src v d" using vr walk_src[of a src] by blast
    fix k :: int assume "0 \<le> k \<and> k \<le> 2 ^ 53 \<and> (\<forall>d. walk a src v d \<longrightarrow> of_int k \<le> d)"
    then have "(of_int k :: rat) \<le> 0" using vr walk_src[of a src] by blast
    then show "of_int k \<le> r" using vr by simp
  qed
  moreover have "(Finite r, u) \<in> set (pq (dijkstra_init a src))"
    if "dist (dijkstra_init a src) u = Some (Finite r)" for u r
    using d[OF that] p by (auto simp: dijkstra_init_def Let_def)
  ultimately show ?thesis using dist_grid_init[of a src] by (simp add: dinv_def)
qed

lemma dinv_final_le:
  assumes I: "dinv a src s" and e: "pq s = []" and nw: "nat_weights a"
  shows "walk a src v d \<Longrightarrow> d \<le> 2 ^ 53 \<Longrightarrow> is_node a v \<Longrightarrow>
           \<exists>x. dist s v = Some (Finite x) \<and> x \<le> d"
proof (induction rule: walk.induct)
  case walk_src
  then show ?case using I by (simp add: dinv_def dinv_local_def)
next
  case (walk_step u d es v w)
  have L: "dinv_local a src s" using I by (simp add: dinv_def)
  obtain kw where kw: "0 \<le> kw" "Finite w = Finite (of_int kw)"
    using nat_weight_edge[OF nw walk_step.hyps(2,3)] by blast
  have w: "w = of_int kw" using kw(2) by simp
  have w0: "0 \<le> w" using kw(1) w by simp
  have d53: "d \<le> 2 ^ 53" using walk_step.prems(1) w0 by linarith
  have "is_node a u" using walk_step.hyps(2) by (auto simp: js_index_def is_node_def split: if_splits)
  then obtain x where x: "dist s u = Some (Finite x)" "x \<le> d" using walk_step.IH[OF d53] by blast
  have x0: "0 \<le> x" using dinv_local_fin(1)[OF L x(1)] .
  have "relaxed a s u (Finite x)" using I e x(1) by (auto simp: dinv_def)
  then have ng: "\<not> js_gt (dist s v) (js_add (Some (Finite x)) (Some (Finite w)))"
    using walk_step.hyps(2,3) by (auto simp: relaxed_def)
  obtain y where y: "dist s v = Some y" using dinv_local_dom[OF L walk_step.prems(2)] by blast
  have yr: "y \<le> round_double (x + w)" using ng y by (simp add: js_gt_def js_add_def)
  obtain n where n: "0 \<le> n" "d + w = of_int n"
    using walk_nat[OF walk.walk_step[OF walk_step.hyps(1,2,3)] nw] by blast
  have "n \<le> 2 ^ 53"
  proof -
    have "(of_int n :: rat) \<le> of_int (2 ^ 53)" using walk_step.prems(1) n(2) by simp
    then show ?thesis by (simp only: of_int_le_iff)
  qed
  moreover have "0 \<le> x + w" "x + w \<le> of_int n" using x0 w0 x(2) n(2) by simp_all
  ultimately have "round_double (x + w) \<le> Finite (of_int n)" by (intro round_double_upper)
  then have "y \<le> Finite (d + w)" using yr n(2) by simp
  moreover have "y \<noteq> NegInf" using dinv_local_facts(3)[OF L, of v] y by auto
  ultimately obtain q where "y = Finite q" "q \<le> d + w" by (cases y) auto
  then show ?case using y by simp
qed

lemma dijkstra_run_total:
  assumes "nat_weights a" and "is_node a src"
  obtains s where "dijkstra_run a src = Some (Inr s)" and "dinv a src s" and "pq s = []"
  using dijkstra_loop_total[OF assms(1) dinv_init[OF assms(2)]] unfolding dijkstra_run_def by blast

lemma round_double_2p53p1: "round_double 9007199254740993 = Finite 9007199254740992"
proof -
  have bl: "bit_length 9007199254740993 = 54" "bit_length 1 = 1" by (simp_all add: bit_length.simps)
  have f: "floor_log2 9007199254740993 = 53" by (simp add: floor_log2_def bl pow2_def)
  have fl: "\<lfloor>9007199254740993 / 2 :: rat\<rfloor> = 4503599627370496" by (simp add: floor_eq_iff)
  have m: "round_even (9007199254740993 / 2) = 4503599627370496"
    by (simp add: round_even_def Let_def fl)
  have p: "pow2 1 = 2" by (simp add: pow2_def)
  show ?thesis by (simp add: round_double_def Let_def f p m)
qed

lemma rounding_graph_walks:
  "walk rounding_graph 0 v d \<Longrightarrow>
     (v = 0 \<and> d = 0) \<or> (v = 1 \<and> d = 9007199254740991)
     \<or> (v = 2 \<and> d = 9007199254740993) \<or> (v = 3 \<and> d = 9007199254740994)"
proof (induction rule: walk.induct)
  case walk_src
  then show ?case by simp
next
  case (walk_step u d es v w)
  then show ?case by (auto simp: js_index_def rounding_graph_def split: if_splits)
qed

lemma rounding_graph_shortest:
  "shortest_distance rounding_graph 0 2 (Finite 9007199254740993)"
proof -
  have 0: "walk rounding_graph 0 0 0" by (rule walk_src)
  have 1: "walk rounding_graph 0 1 (0 + 9007199254740991)"
    by (rule walk_step[OF 0, of "[(1, Finite 9007199254740991)]"])
       (simp_all add: js_index_def rounding_graph_def)
  have 2: "walk rounding_graph 0 2 (0 + 9007199254740991 + 2)"
    by (rule walk_step[OF 1, of "[(2, Finite 2)]"]) (simp_all add: js_index_def rounding_graph_def)
  have "9007199254740993 \<le> d'" if "walk rounding_graph 0 2 d'" for d'
    using rounding_graph_walks[OF that] by simp
  then show ?thesis using 2 by (simp add: shortest_distance_def)
qed

text \<open>
  C1. For a graph whose edge weights are non-negative integers and a source node in
  range, dijkstra returns a table. The entry of the source is 0, the entry of a node that
  no walk reaches is \<open>Infinity\<close>, and the entry of a node whose true shortest-path distance
  (the least weight of a walk, summed exactly) is at most \<open>2^53\<close> is that distance.
\<close>

theorem dijkstra_shortest_paths:
  assumes "nat_weights a" and "is_node a src"
  shows "\<exists>D. dijkstra a src = Some (Inr D)
           \<and> D src = Some (Finite 0)
           \<and> (\<forall>v. is_node a v \<and> (\<forall>d. \<not> walk a src v d) \<longrightarrow> D v = Some PosInf)
           \<and> (\<forall>v d. is_node a v \<and> shortest_distance a src v (Finite d) \<and> d \<le> 2 ^ 53 \<longrightarrow>
                  D v = Some (Finite d))"
proof -
  obtain s where s: "dijkstra_run a src = Some (Inr s)" "dinv a src s" "pq s = []"
    using dijkstra_run_total[OF assms] by blast
  have L: "dinv_local a src s" using s(2) by (simp add: dinv_def)
  have inf: "dist s v = Some PosInf" if v: "is_node a v" and nw: "\<forall>d. \<not> walk a src v d" for v
  proof -
    obtain x where x: "dist s v = Some x" using dinv_local_dom[OF L v] by blast
    have "x \<noteq> NegInf" using dinv_local_facts(3)[OF L, of v] x by auto
    moreover have "x \<noteq> Finite r" for r using dinv_local_fin(2)[OF L, of v r] x nw by auto
    ultimately show ?thesis using x by (cases x) auto
  qed
  have fin: "dist s v = Some (Finite d)"
    if v: "is_node a v" and sh: "shortest_distance a src v (Finite d)" and d: "d \<le> 2 ^ 53" for v d
  proof -
    have w: "walk a src v d" and least: "\<And>d'. walk a src v d' \<Longrightarrow> d \<le> d'"
      using sh by (simp_all add: shortest_distance_def)
    obtain x where x: "dist s v = Some (Finite x)" "x \<le> d"
      using dinv_final_le[OF s(2,3) assms(1) w d v] by blast
    obtain n where n: "0 \<le> n" "d = of_int n" using walk_nat[OF w assms(1)] by blast
    have "n \<le> 2 ^ 53"
    proof -
      have "(of_int n :: rat) \<le> of_int (2 ^ 53)" using d n(2) by simp
      then show ?thesis by (simp only: of_int_le_iff)
    qed
    then have "of_int n \<le> x"
      using dinv_local_fin(3)[OF L x(1), of n] n least by simp
    then show ?thesis using x n(2) by simp
  qed
  have "dist s src = Some (Finite 0)" using dinv_local_facts(4)[OF L] .
  moreover have "dijkstra a src = Some (Inr (dist s))"
    using s(1) by (simp add: dijkstra_def)
  ultimately show ?thesis using inf fin by blast
qed

theorem dijkstra_shortest_paths_witness:
  "nat_weights example_graph \<and> is_node example_graph 0
   \<and> (\<exists>D. dijkstra example_graph 0 = Some (Inr D)
          \<and> map D [0, 1, 2, 3, 4]
              = [Some (Finite 0), Some (Finite 4), Some (Finite 1), Some (Finite 2), Some PosInf])"
proof -
  have nw: "nat_weights example_graph"
    by (simp add: nat_weights_def nat_weight_def example_graph_def)
  have sn: "is_node example_graph 0" by (simp add: is_node_def example_graph_def)
  obtain D where D: "dijkstra example_graph 0 = Some (Inr D)"
    using dijkstra_shortest_paths[OF nw sn] by blast
  have "\<exists>D'. dijkstra example_graph 0 = Some (Inr D')
          \<and> map D' [0, 1, 2, 3, 4]
              = [Some (Finite 0), Some (Finite 4), Some (Finite 1), Some (Finite 2), Some PosInf]"
    unfolding example_graph_def dijkstra_def dijkstra_run_def dijkstra_init_def
    by (simp add: dijkstra_loop.simps push_def pop_def sift_up.simps sift_down.simps swap_def
        size_heap_def js_gt_def js_add_def js_index_def new_array_def relax1_def Let_def)
  then show ?thesis using nw sn by blast
qed

text \<open>
  The claim as stated, for all non-negative weights, fails where a sum of the source is
  rounded: on the path 0, 1, 2 with weights \<open>2^53 - 1\<close> and 2 the true distance of node 2 is
  \<open>2^53 + 1\<close>, which is not a double, and the table holds \<open>2^53\<close>.
\<close>

theorem dijkstra_rounding_counterexample:
  "nonneg_weights rounding_graph \<and> is_node rounding_graph 0
   \<and> shortest_distance rounding_graph 0 2 (Finite 9007199254740993)
   \<and> (\<exists>D. dijkstra rounding_graph 0 = Some (Inr D)
          \<and> map D [0, 1, 2, 3]
              = [Some (Finite 0), Some (Finite 9007199254740991),
                 Some (Finite 9007199254740992), Some (Finite 9007199254740992)])"
proof -
  have nn: "nonneg_weights rounding_graph" by (simp add: nonneg_weights_def rounding_graph_def)
  have sn: "is_node rounding_graph 0" by (simp add: is_node_def rounding_graph_def)
  have "\<exists>D. dijkstra rounding_graph 0 = Some (Inr D)
          \<and> map D [0, 1, 2, 3]
              = [Some (Finite 0), Some (Finite 9007199254740991),
                 Some (Finite 9007199254740992), Some (Finite 9007199254740992)]"
    unfolding rounding_graph_def dijkstra_def dijkstra_run_def dijkstra_init_def
    by (simp add: dijkstra_loop.simps push_def pop_def sift_up.simps sift_down.simps swap_def
        size_heap_def js_gt_def js_add_def js_index_def new_array_def relax1_def Let_def
        round_double_2p53p1)
  then show ?thesis using nn sn rounding_graph_shortest by blast
qed

section \<open>Calls with equal start and goal, frames, determinism, missing range checks\<close>

lemma push_Nil: "push k v [] = [(k, v)]"
  by (simp add: push_def sift_up.simps)

lemma pop_single: "pop [e] = (Some e, [])"
  by (simp add: pop_def)

lemma scan_open_single: "scan_open [(k, f)] = (Some k, Fin f)"
  by (simp add: scan_open_def)

lemma reconstruct_root: "par c = Some None \<Longrightarrow> reconstruct par (Some c) [] = Some [c]"
  by (subst reconstruct.simps, simp, subst reconstruct.simps, simp)

lemma astar_loop_start_is_goal:
  "astar_loop R C s (astar_init s s g) = Some (Some [s], (astar_init s s g)\<lparr>open_map := []\<rparr>)"
  by (subst astar_loop.simps)
     (simp add: astar_init_def scan_open_single AList.delete_eq reconstruct_root)

text \<open>
  C10. On a grid and a cell \<open>s\<close> within its bounds, \<open>astarGrid(s, s, grid)\<close> returns the
  one-cell path \<open>[s]\<close>, whatever the grid holds at \<open>s\<close>: the hypothesis says nothing about
  the cell being free.
\<close>

theorem astar_start_equals_goal:
  assumes "inBounds (length g) (length (g ! 0)) x y"
  shows "astarGrid (x, y) (x, y) g = Some (Inr (Some [(x, y)]))"
proof -
  have "g \<noteq> []" using assms by (auto simp: inBounds_def)
  then obtain row0 rest where g: "g = row0 # rest" by (cases g) auto
  show ?thesis
    by (simp add: astarGrid_def astar_run_def g astar_loop_start_is_goal)
qed

theorem astar_start_equals_goal_witness:
  "inBounds (length grid4) (length (grid4 ! 0)) 1 1 \<and> grid4 ! 1 ! 1 = 1
   \<and> astarGrid (1, 1) (1, 1) grid4 = Some (Inr (Some [(1, 1)]))"
  using astar_start_equals_goal[of grid4 1 1]
  by (simp add: grid4_def inBounds_def)

lemma relax1_adj: "adj (relax1 u v w s) = adj s"
  by (simp add: relax1_eq split: option.splits)

lemma relax_adj: "adj (relax u es s) = adj s"
proof (induction es arbitrary: s)
  case Nil
  then show ?case by simp
next
  case (Cons e es)
  obtain v w where "e = (v, w)" by (cases e)
  then show ?case using Cons.IH[of "relax1 u v w s"] by (simp add: relax1_adj)
qed

lemma dijkstra_loop_adj:
  assumes "dijkstra_loop s = Some r"
  shows "\<forall>s'. r = Inr s' \<longrightarrow> adj s' = adj s"
proof (rule dijkstra_loop.raw_induct[where P = "\<lambda>s r. \<forall>s'. r = Inr s' \<longrightarrow> adj s' = adj s",
        OF _ assms], goal_cases)
  case (1 loop s r)
  note IH = "1"(1) and eq = "1"(2)
  show ?case
  proof (cases "size_heap (pq s) = 0")
    case True
    then show ?thesis using eq by auto
  next
    case False
    obtain e h where p: "pop (pq s) = (e, h)" by (cases "pop (pq s)")
    show ?thesis
    proof (cases e)
      case None
      then show ?thesis using eq False p by auto
    next
      case (Some du)
      obtain d u where du: "du = (d, u)" by (cases du)
      show ?thesis
      proof (cases "js_gt (Some d) (dist s u)")
        case True
        then have l: "loop (s\<lparr>pq := h\<rparr>) = Some r" using eq False p Some du by simp
        have a: "adj (s\<lparr>pq := h\<rparr>) = adj s" by simp
        from IH[OF l] show ?thesis unfolding a .
      next
        case ngt: False
        show ?thesis
        proof (cases "js_index (adj s) u")
          case None
          then show ?thesis using eq False p Some du ngt by auto
        next
          case (Some es)
          then have l: "loop (relax u es (s\<lparr>pq := h\<rparr>)) = Some r"
            using eq False p \<open>e = Some du\<close> du ngt by simp
          have a: "adj (relax u es (s\<lparr>pq := h\<rparr>)) = adj s" by (simp add: relax_adj)
          from IH[OF l] show ?thesis unfolding a .
        qed
      qed
    qed
  qed
qed

lemma dijkstra_run_adj: "dijkstra_run a src = Some (Inr s) \<Longrightarrow> adj s = a"
  using dijkstra_loop_adj[of "dijkstra_init a src" "Inr s"]
  by (simp add: dijkstra_run_def dijkstra_init_def Let_def)

text \<open>
  C9. dijkstra is deterministic. On every graph and source a run returns (a table, or the
  \<open>TypeError\<close>); and when a run has returned a table, a second run on the same inputs, the
  graph as the first run left it and the same source, returns a table with the same
  entries.
\<close>

theorem dijkstra_deterministic:
  "(\<exists>r. dijkstra a src = Some r)
   \<and> (\<forall>s. dijkstra_run a src = Some (Inr s) \<longrightarrow> dijkstra (adj s) src = Some (Inr (dist s)))"
proof -
  obtain r where r: "dijkstra_run a src = Some r" using dijkstra_run_returns[of a src] by blast
  then have 1: "\<exists>r. dijkstra a src = Some r" by (simp add: dijkstra_def)
  have 2: "dijkstra (adj s) src = Some (Inr (dist s))" if s: "dijkstra_run a src = Some (Inr s)" for s
    using s dijkstra_run_adj[OF s] by (simp add: dijkstra_def)
  show ?thesis using 1 2 by blast
qed

theorem dijkstra_deterministic_witness:
  "\<exists>s. dijkstra_run example_graph 0 = Some (Inr s)
     \<and> dijkstra (adj s) 0 = Some (Inr (dist s))
     \<and> map (dist s) [0, 1, 2, 3, 4]
         = [Some (Finite 0), Some (Finite 4), Some (Finite 1), Some (Finite 2), Some PosInf]"
proof -
  have nw: "nat_weights example_graph"
    by (simp add: nat_weights_def nat_weight_def example_graph_def)
  have sn: "is_node example_graph 0" by (simp add: is_node_def example_graph_def)
  obtain s where s: "dijkstra_run example_graph 0 = Some (Inr s)"
    using dijkstra_run_total[OF nw sn] by blast
  have re: "dijkstra (adj s) 0 = Some (Inr (dist s))"
    using dijkstra_deterministic[of example_graph 0] s by blast
  have "\<exists>D'. dijkstra example_graph 0 = Some (Inr D')
          \<and> map D' [0, 1, 2, 3, 4]
              = [Some (Finite 0), Some (Finite 4), Some (Finite 1), Some (Finite 2), Some PosInf]"
    unfolding example_graph_def dijkstra_def dijkstra_run_def dijkstra_init_def
    by (simp add: dijkstra_loop.simps push_def pop_def sift_up.simps sift_down.simps swap_def
        size_heap_def js_gt_def js_add_def js_index_def new_array_def relax1_def Let_def)
  moreover have "dijkstra example_graph 0 = Some (Inr (dist s))" using s by (simp add: dijkstra_def)
  ultimately have m: "map (dist s) [0, 1, 2, 3, 4]
      = [Some (Finite 0), Some (Finite 4), Some (Finite 1), Some (Finite 2), Some PosInf]"
    by auto
  show ?thesis using s re m by (intro exI[of _ s] conjI)
qed

lemma expand_grid: "grid (expand R C goal cur gCur d s) = grid s"
  by (simp add: expand_def Let_def split: option.splits)

lemma fold_expand_grid: "grid (fold (expand R C goal cur gCur) ds s) = grid s"
  by (induction ds arbitrary: s) (simp_all add: expand_grid)

lemma astar_loop_grid:
  assumes "astar_loop R C goal s = Some y"
  shows "grid (snd y) = grid s"
proof (rule astar_loop.raw_induct[where P = "\<lambda>R C goal s y. grid (snd y) = grid s",
        OF _ assms], goal_cases)
  case (1 loop R C goal s y)
  note IH = "1"(1) and eq = "1"(2)
  show ?case
  proof (cases "length (open_map s) = 0")
    case True
    then show ?thesis using eq by auto
  next
    case False
    show ?thesis
    proof (cases "fst (scan_open (open_map s))")
      case None
      then show ?thesis using eq False by auto
    next
      case (Some cur)
      define s1 where "s1 = s\<lparr>open_map := AList.delete cur (open_map s)\<rparr>"
      show ?thesis
      proof (cases "cur = goal")
        case True
        then show ?thesis using eq False Some by (auto simp: Let_def)
      next
        case ne: False
        then have l: "loop R C goal (fold (expand R C goal cur (gScore s1 cur)) dirs s1) = Some y"
          using eq False Some by (simp add: Let_def s1_def)
        have a: "grid (fold (expand R C goal cur (gScore s1 cur)) dirs s1) = grid s"
          by (simp add: fold_expand_grid s1_def)
        from IH[OF l] show ?thesis unfolding a .
      qed
    qed
  qed
qed

text \<open>
  C8. A run of dijkstra that returns ends with the caller's adjacency array as it was
  given, a run of astarGrid that returns ends with the grid as it was given, and
  \<open>LCA.query\<close> leaves the object (its \<open>up\<close>, \<open>depth\<close> and \<open>adj\<close>, and \<open>n\<close> and \<open>LOG\<close>) as it
  found it.
\<close>

theorem inputs_not_mutated:
  "(\<forall>s. dijkstra_run a src = Some (Inr s) \<longrightarrow> adj s = a)
   \<and> (\<forall>r s. astar_run start goal g = Some (Inr (r, s)) \<longrightarrow> grid s = g)
   \<and> snd (query t u v) = t"
proof -
  have 1: "adj s = a" if "dijkstra_run a src = Some (Inr s)" for s
    using that by (rule dijkstra_run_adj)
  have 2: "grid s = g" if "astar_run start goal g = Some (Inr (r, s))" for r s
  proof (cases g)
    case Nil
    then show ?thesis using that by (simp add: astar_run_def)
  next
    case (Cons row0 rest)
    then have "astar_loop (length g) (length row0) goal (astar_init start goal g) = Some (r, s)"
      using that by (auto simp: astar_run_def)
    then show ?thesis using astar_loop_grid[of "length g" "length row0" goal "astar_init start goal g" "(r, s)"]
      by (simp add: astar_init_def)
  qed
  have 3: "snd (query t u v) = t"
    by (simp add: query_def Let_def split: prod.splits)
  show ?thesis using 1 2 3 by blast
qed

theorem inputs_not_mutated_witness:
  "(\<exists>s. dijkstra_run example_graph 0 = Some (Inr s) \<and> adj s = example_graph)
   \<and> (\<exists>r s. astar_run (1, 1) (1, 1) grid4 = Some (Inr (r, s)) \<and> grid s = grid4)
   \<and> snd (query (lca_alloc [[]]) 0 0) = lca_alloc [[]]"
proof -
  have nw: "nat_weights example_graph"
    by (simp add: nat_weights_def nat_weight_def example_graph_def)
  have sn: "is_node example_graph 0" by (simp add: is_node_def example_graph_def)
  obtain s where s: "dijkstra_run example_graph 0 = Some (Inr s)"
    using dijkstra_run_total[OF nw sn] by blast
  obtain r s' where r: "astar_run (1, 1) (1, 1) grid4 = Some (Inr (r, s'))"
    by (simp add: astar_run_def grid4_def astar_loop_start_is_goal)
  note fr = inputs_not_mutated[of example_graph 0 "(1, 1)" "(1, 1)" grid4 "lca_alloc [[]]" 0 0]
  show ?thesis using fr s r by blast
qed

lemma dijkstra_bad_source:
  assumes "\<not> is_node a src"
  shows "dijkstra a src = Some (Inl TypeError)"
proof -
  have "js_index a src = None" using assms by (simp add: js_index_def is_node_def)
  then show ?thesis
    unfolding dijkstra_def dijkstra_run_def dijkstra_init_def
    by (subst dijkstra_loop.simps)
       (simp add: push_Nil pop_single size_heap_def js_gt_def Let_def)
qed

lemma fold_no_change: "(\<And>k x. \<not> c k) \<Longrightarrow> fold (\<lambda>k x. if c k then f k x else x) ks x = x"
  by (induction ks) simp_all

lemma js_bit_and_shl_zero: "\<not> js_bit_and_shl (js_sub d d) k"
  by (cases d) (simp_all add: js_bit_and_shl_def js_sub_def)

lemma lift_same_depth: "lift t (js_sub d d) x = x"
  unfolding lift_def by (rule fold_no_change) (rule js_bit_and_shl_zero)

lemma query_same: "query t u u = (Some u, t)"
  by (simp add: query_def js_lt_def lift_same_depth split: option.splits)

lemma astarGrid_same:
  assumes "g \<noteq> []"
  shows "astarGrid s s g = Some (Inr (Some [s]))"
proof -
  obtain row0 rest where g: "g = row0 # rest" using assms by (cases g) auto
  show ?thesis
    by (simp add: astarGrid_def astar_run_def g astar_loop_start_is_goal)
qed

text \<open>
  C6, as the code has it. No operation checks the range of its arguments. dijkstra with a
  source outside \<open>0..n-1\<close> does end in an error, the \<open>TypeError\<close> of iterating the missing
  \<open>adj[src]\<close>. \<open>LCA.query\<close> has no error path: \<open>query(u, u)\<close> returns \<open>u\<close> for every \<open>u\<close>, in
  range or not. astarGrid with equal start and goal returns the one-cell path on every grid
  with at least one row, wherever the cell lies.
\<close>

theorem range_checks_as_coded:
  "(\<not> is_node a src \<longrightarrow> dijkstra a src = Some (Inl TypeError))
   \<and> fst (query t u u) = Some u
   \<and> (g \<noteq> [] \<longrightarrow> astarGrid s s g = Some (Inr (Some [s])))"
  using dijkstra_bad_source[of a src] astarGrid_same[of g s] by (simp add: query_same)

theorem range_checks_as_coded_witness:
  "\<not> is_node example_graph 7 \<and> dijkstra example_graph 7 = Some (Inl TypeError)
   \<and> fst (query (lca_alloc [[]]) 5 5) = Some 5
   \<and> grid4 \<noteq> [] \<and> astarGrid (9, 9) (9, 9) grid4 = Some (Inr (Some [(9, 9)]))"
  using range_checks_as_coded[of example_graph 7 "lca_alloc [[]]" 5 grid4 "(9, 9)"]
  by (simp add: is_node_def example_graph_def grid4_def)

text \<open>
  The claim fails as stated: a start and goal outside the grid yield a path, not an error.
\<close>

theorem range_checks_counterexample:
  "\<not> inBounds (length grid4) (length (grid4 ! 0)) 9 9
   \<and> astarGrid (9, 9) (9, 9) grid4 = Some (Inr (Some [(9, 9)]))"
  by (simp add: astarGrid_same inBounds_def grid4_def)

section \<open>LCA: the traversal and the ancestor table\<close>

lemma ceil_log2_ge: "m \<le> 2 ^ ceil_log2 m"
proof (induction m rule: ceil_log2.induct)
  case (1 m)
  show ?case
  proof (cases "m \<le> 1")
    case True
    then show ?thesis by (subst ceil_log2.simps) simp
  next
    case False
    then have "(m + 1) div 2 \<le> 2 ^ ceil_log2 ((m + 1) div 2)" using "1.IH" by simp
    then have "m \<le> 2 * 2 ^ ceil_log2 ((m + 1) div 2)" by linarith
    then show ?thesis using False by (subst ceil_log2.simps) simp
  qed
qed

lemma ceil_log2_pos: "2 \<le> m \<Longrightarrow> 0 < ceil_log2 m"
  by (subst ceil_log2.simps) simp

lemma tree_root: "rooted_tree a r par dep \<Longrightarrow> is_node a r \<and> par r = r \<and> dep r = 0"
  by (simp add: rooted_tree_def)

lemma tree_par:
  "rooted_tree a r par dep \<Longrightarrow> is_node a v \<Longrightarrow> v \<noteq> r \<Longrightarrow>
     is_node a (par v) \<and> dep v = Suc (dep (par v))"
  by (simp add: rooted_tree_def)

lemma tree_adj:
  "rooted_tree a r par dep \<Longrightarrow> is_node a u \<Longrightarrow>
     set (a ! nat u) = {c. is_node a c \<and> c \<noteq> r \<and> par c = u} \<union> (if u = r then {} else {par u})"
  by (simp add: rooted_tree_def)

lemma node_par: "rooted_tree a r par dep \<Longrightarrow> is_node a v \<Longrightarrow> is_node a (par v)"
  using tree_root[of a r par dep] tree_par[of a r par dep v] by (cases "v = r") auto

lemma node_funpow: "rooted_tree a r par dep \<Longrightarrow> is_node a v \<Longrightarrow> is_node a ((par ^^ k) v)"
  by (induction k) (simp_all add: node_par)

lemma dep_par: "rooted_tree a r par dep \<Longrightarrow> is_node a v \<Longrightarrow> dep (par v) = dep v - 1"
  using tree_root[of a r par dep] tree_par[of a r par dep v] by (cases "v = r") auto

lemma dep_funpow: "rooted_tree a r par dep \<Longrightarrow> is_node a v \<Longrightarrow> dep ((par ^^ k) v) = dep v - k"
proof (induction k)
  case 0
  then show ?case by simp
next
  case (Suc k)
  then show ?case using dep_par[OF Suc.prems(1) node_funpow[OF Suc.prems, of k]] by simp
qed

lemma dep_zero_root: "rooted_tree a r par dep \<Longrightarrow> is_node a v \<Longrightarrow> dep v = 0 \<Longrightarrow> v = r"
  using tree_par[of a r par dep v] by auto

lemma funpow_root: "rooted_tree a r par dep \<Longrightarrow> (par ^^ k) r = r"
  by (induction k) (simp_all add: tree_root)

lemma funpow_to_root:
  "rooted_tree a r par dep \<Longrightarrow> is_node a v \<Longrightarrow> dep v \<le> k \<Longrightarrow> (par ^^ k) v = r"
  using dep_zero_root[of a r par dep "(par ^^ k) v"] node_funpow[of a r par dep v k]
    dep_funpow[of a r par dep v k] by simp

lemma dep_less:
  assumes T: "rooted_tree a r par dep" and v: "is_node a v"
  shows "dep v < length a"
proof -
  let ?f = "\<lambda>k. (par ^^ k) v"
  have inj: "inj_on ?f {..dep v}"
  proof (rule inj_onI)
    fix i j assume i: "i \<in> {..dep v}" and j: "j \<in> {..dep v}" and e: "?f i = ?f j"
    have "dep v - i = dep v - j" using dep_funpow[OF T v, of i] dep_funpow[OF T v, of j] e by simp
    then show "i = j" using i j by auto
  qed
  have sub: "?f ` {..dep v} \<subseteq> int ` {..<length a}"
  proof
    fix x assume "x \<in> ?f ` {..dep v}"
    then obtain k where "x = (par ^^ k) v" by auto
    then have "is_node a x" using node_funpow[OF T v] by simp
    then have "x = int (nat x)" "nat x < length a" by (auto simp: is_node_def)
    then show "x \<in> int ` {..<length a}" by blast
  qed
  have "card {..dep v} \<le> card (int ` {..<length a})"
    using card_inj_on_le[OF inj sub] by simp
  also have "\<dots> \<le> length a" using card_image_le[of "{..<length a}" int] by simp
  finally show ?thesis by simp
qed

lemma tinv_alloc: "tinv a (lca_alloc a)"
  by (simp add: tinv_def lca_alloc_def Let_def)

lemma tinv_LOG_pos: "tinv a t \<Longrightarrow> 0 < length (lca_up t)"
  using ceil_log2_pos[of "max 2 (length a)"] by (simp add: tinv_def)

lemma tinv_set_depth: "tinv a t \<Longrightarrow> tinv a (set_depth v u t)"
  by (simp add: tinv_def set_depth_def)

lemma tinv_set_parent: "tinv a t \<Longrightarrow> tinv a (set_parent v u t)"
  by (simp add: tinv_def set_parent_def)

lemma visited_set_depth:
  assumes "lca_depth t u = Some (int (dep u))" and "dep v = Suc (dep u)"
  shows "visited par dep t x \<Longrightarrow> visited par dep (set_depth v u t) x"
    and "lca_depth (set_depth v u t) v = Some (int (dep v))"
  using assms by (auto simp: visited_def set_depth_def)

lemma visited_set_parent:
  assumes "tinv a t" and "par v = u"
  shows "visited par dep t x \<Longrightarrow> visited par dep (set_parent v u t) x"
    and "(lca_up (set_parent v u t) ! 0) v = Some (par v)"
    and "lca_depth (set_parent v u t) = lca_depth t"
  using assms tinv_LOG_pos[OF assms(1)] by (auto simp: visited_def set_parent_def)

lemma desc_cases:
  "desc a r par u x \<Longrightarrow>
     x = u \<or> (\<exists>c. is_node a c \<and> c \<noteq> r \<and> par c = u \<and> desc a r par c x)"
proof (induction rule: desc.induct)
  case desc_refl
  then show ?case by simp
next
  case (desc_step y x)
  then show ?case
    using desc.desc_refl[of a x r par] desc.desc_step[of a r par _ y x] by blast
qed

lemma desc_root:
  assumes T: "rooted_tree a r par dep"
  shows "is_node a x \<Longrightarrow> desc a r par r x"
proof (induction "dep x" arbitrary: x)
  case 0
  then have "x = r" using dep_zero_root[OF T] by simp
  then show ?case using tree_root[OF T] by (simp add: desc_refl)
next
  case (Suc m)
  then have xr: "x \<noteq> r" using tree_root[OF T] by auto
  have p: "is_node a (par x)" "dep x = Suc (dep (par x))" using tree_par[OF T Suc.prems xr] by auto
  then have "desc a r par r (par x)" using Suc.hyps by simp
  then show ?case using Suc.prems xr by (rule desc_step) simp
qed

lemma child_in_adj:
  assumes T: "rooted_tree a r par dep" and c: "is_node a c" "c \<noteq> r"
  shows "c \<in> set (a ! nat (par c))" and "c \<noteq> par (par c)"
proof -
  have p: "is_node a (par c)" "dep c = Suc (dep (par c))" using tree_par[OF T c] by auto
  show "c \<in> set (a ! nat (par c))" using tree_adj[OF T p(1)] c by auto
  show "c \<noteq> par (par c)"
  proof
    assume e: "c = par (par c)"
    have "dep c = dep (par c) - 1" using arg_cong[OF e, of dep] dep_par[OF T p(1)] by simp
    then show False using p(2) by simp
  qed
qed

lemma adj_child:
  assumes T: "rooted_tree a r par dep" and u: "is_node a u" and v: "v \<in> set (a ! nat u)" "v \<noteq> par u"
  shows "is_node a v \<and> v \<noteq> r \<and> par v = u"
  using tree_adj[OF T u] v by (auto split: if_splits)

lemma dfs_loop_Nil: "dfs_loop u p [] t = Some (Inr t)"
  by (subst dfs_loop.simps) simp

lemma dfs_loop_skip: "dfs_loop u p (p # vs) t = dfs_loop u p vs t"
  by (subst dfs_loop.simps) simp

lemma dfs_loop_child:
  assumes "v \<noteq> p" and "js_index (lca_adj t) v = Some cs"
    and "dfs_loop v u cs (set_parent v u (set_depth v u t)) = Some (Inr t3)"
  shows "dfs_loop u p (v # vs) t = dfs_loop u p vs t3"
  using assms by (subst dfs_loop.simps) (simp add: set_parent_def set_depth_def)

lemma dfs_loop_tree:
  assumes T: "rooted_tree a r par dep"
  shows "is_node a u \<Longrightarrow> set vs \<subseteq> set (a ! nat u) \<Longrightarrow> tinv a t \<Longrightarrow> visited par dep t u \<Longrightarrow>
     \<exists>t'. dfs_loop u (par u) vs t = Some (Inr t') \<and> tinv a t'
        \<and> (\<forall>x. visited par dep t x \<longrightarrow> visited par dep t' x)
        \<and> (\<forall>c \<in> set vs. c \<noteq> par u \<longrightarrow> (\<forall>x. desc a r par c x \<longrightarrow> visited par dep t' x))"
proof (induction "length a - dep u" arbitrary: u vs t rule: less_induct)
  case less
  note outer = less.hyps
  note u = less.prems(1)
  show ?case using less.prems(2,3,4)
  proof (induction vs arbitrary: t)
    case Nil
    then show ?case by (simp add: dfs_loop_Nil)
  next
    case (Cons v vs)
    show ?case
    proof (cases "v = par u")
      case True
      obtain t' where t': "dfs_loop u (par u) vs t = Some (Inr t')" "tinv a t'"
        "\<forall>x. visited par dep t x \<longrightarrow> visited par dep t' x"
        "\<forall>c \<in> set vs. c \<noteq> par u \<longrightarrow> (\<forall>x. desc a r par c x \<longrightarrow> visited par dep t' x)"
        using Cons.IH[OF _ Cons.prems(2,3)] Cons.prems(1) by auto
      show ?thesis using t' True by (auto simp: dfs_loop_skip)
    next
      case False
      have vin: "v \<in> set (a ! nat u)" using Cons.prems(1) by simp
      have ch: "is_node a v" "v \<noteq> r" "par v = u" using adj_child[OF T u vin False] by auto
      have dv: "dep v = Suc (dep u)" using tree_par[OF T ch(1,2)] ch(3) by simp
      have du: "lca_depth t u = Some (int (dep u))" using Cons.prems(3) by (simp add: visited_def)
      define t1 where "t1 = set_depth v u t"
      define t2 where "t2 = set_parent v u t1"
      have inv1: "tinv a t1" using Cons.prems(2) by (simp add: t1_def tinv_set_depth)
      have inv2: "tinv a t2" using inv1 by (simp add: t2_def tinv_set_parent)
      have mono2: "visited par dep t x \<Longrightarrow> visited par dep t2 x" for x
        unfolding t2_def t1_def
        using visited_set_parent(1)[where par = par and v = v and u = u and dep = dep and x = x,
            OF tinv_set_depth[OF Cons.prems(2), of v u] ch(3)]
          visited_set_depth(1)[OF du dv, of par x] by blast
      have vis2: "visited par dep t2 v"
        unfolding t2_def t1_def visited_def
        using visited_set_parent(2,3)[where par = par and v = v and u = u,
            OF tinv_set_depth[OF Cons.prems(2), of v u] ch(3)]
          visited_set_depth(2)[OF du dv] by simp
      have idx: "js_index (lca_adj t) v = Some (a ! nat v)"
        using Cons.prems(2) ch(1) by (simp add: tinv_def js_index_def is_node_def)
      have less: "length a - dep v < length a - dep u"
        using dep_less[OF T ch(1)] dv by simp
      obtain t3 where t3: "dfs_loop v (par v) (a ! nat v) t2 = Some (Inr t3)" "tinv a t3"
        "\<forall>x. visited par dep t2 x \<longrightarrow> visited par dep t3 x"
        "\<forall>c \<in> set (a ! nat v). c \<noteq> par v \<longrightarrow> (\<forall>x. desc a r par c x \<longrightarrow> visited par dep t3 x)"
        using outer[OF less ch(1) subset_refl inv2 vis2] by blast
      have sub3: "visited par dep t3 x" if d: "desc a r par v x" for x
      proof -
        consider "x = v" | c where "is_node a c" "c \<noteq> r" "par c = v" "desc a r par c x"
          using desc_cases[OF d] by blast
        then show ?thesis
        proof cases
          case 1
          then show ?thesis using vis2 t3(3) by simp
        next
          case 2
          have "c \<in> set (a ! nat v)" "c \<noteq> par v"
            using child_in_adj[OF T 2(1,2)] 2(3) by auto
          then show ?thesis using t3(4) 2(4) by blast
        qed
      qed
      have vis3: "visited par dep t3 u" using Cons.prems(3) mono2 t3(3) by blast
      obtain t' where t': "dfs_loop u (par u) vs t3 = Some (Inr t')" "tinv a t'"
        "\<forall>x. visited par dep t3 x \<longrightarrow> visited par dep t' x"
        "\<forall>c \<in> set vs. c \<noteq> par u \<longrightarrow> (\<forall>x. desc a r par c x \<longrightarrow> visited par dep t' x)"
        using Cons.IH[OF _ t3(2) vis3] Cons.prems(1) by auto
      have eq: "dfs_loop u (par u) (v # vs) t = dfs_loop u (par u) vs t3"
        using dfs_loop_child[OF False idx, of u t3 vs] t3(1) ch(3) by (simp add: t2_def t1_def)
      have m: "\<forall>x. visited par dep t x \<longrightarrow> visited par dep t' x"
        using mono2 t3(3) t'(3) by blast
      have cov: "\<forall>c \<in> set (v # vs). c \<noteq> par u \<longrightarrow> (\<forall>x. desc a r par c x \<longrightarrow> visited par dep t' x)"
        using sub3 t'(3,4) by auto
      have "dfs_loop u (par u) (v # vs) t = Some (Inr t')" using eq t'(1) by simp
      then show ?thesis using t'(2) m cov by (intro exI[of _ t'] conjI)
    qed
  qed
qed

lemma dfs_tree:
  assumes T: "rooted_tree a r par dep"
  shows "\<exists>t. dfs r r (lca_alloc a) = Some (Inr t) \<and> tinv a t
           \<and> (\<forall>x. is_node a x \<longrightarrow> visited par dep t x)"
proof -
  note R = tree_root[OF T]
  define t1 where "t1 = set_parent r r (lca_alloc a)"
  have inv1: "tinv a t1" by (simp add: t1_def tinv_set_parent tinv_alloc)
  have "lca_depth (lca_alloc a) r = Some 0"
    using R by (simp add: lca_alloc_def Let_def new_array_def is_node_def)
  then have vis1: "visited par dep t1 r"
    unfolding t1_def visited_def
    using visited_set_parent(2,3)[where par = par and v = r and u = r, OF tinv_alloc[of a]] R
    by simp
  have idx: "js_index (lca_adj t1) r = Some (a ! nat r)"
    using inv1 R by (simp add: tinv_def js_index_def is_node_def)
  obtain t where t: "dfs_loop r (par r) (a ! nat r) t1 = Some (Inr t)" "tinv a t"
    "\<forall>x. visited par dep t1 x \<longrightarrow> visited par dep t x"
    "\<forall>c \<in> set (a ! nat r). c \<noteq> par r \<longrightarrow> (\<forall>x. desc a r par c x \<longrightarrow> visited par dep t x)"
    using dfs_loop_tree[OF T _ subset_refl inv1 vis1] R by blast
  have all: "visited par dep t x" if x: "is_node a x" for x
  proof -
    consider "x = r" | c where "is_node a c" "c \<noteq> r" "par c = r" "desc a r par c x"
      using desc_cases[OF desc_root[OF T x]] by blast
    then show ?thesis
    proof cases
      case 1
      then show ?thesis using vis1 t(3) by simp
    next
      case 2
      have "c \<in> set (a ! nat r)" "c \<noteq> par r"
        using child_in_adj[OF T 2(1,2)] 2(2,3) R by auto
      then show ?thesis using t(4) 2(4) by blast
    qed
  qed
  have "dfs r r (lca_alloc a) = Some (Inr t)"
    using t(1) idx R by (simp add: dfs_def t1_def Let_def)
  then show ?thesis using t(2) all by blast
qed

lemma fill_row_apply:
  "fill_row n prev row x = (if 0 \<le> x \<and> x < int n then fill_entry prev x else row x)"
proof (induction n)
  case 0
  then show ?case by (auto simp: fill_row_def)
next
  case (Suc n)
  have "fill_row (Suc n) prev row = (fill_row n prev row)(int n := fill_entry prev (int n))"
    by (simp add: fill_row_def)
  then show ?case using Suc by auto
qed

lemma fill_level_ok:
  assumes T: "rooted_tree a r par dep" and inv: "tinv a t" and k: "0 < k" "k < lca_LOG t"
    and ok: "row_ok a par t (k - 1)"
  shows "row_ok a par (fill_level k t) k"
    and "\<And>j. j \<noteq> k \<Longrightarrow> lca_up (fill_level k t) ! j = lca_up t ! j"
    and "tinv a (fill_level k t)"
    and "lca_depth (fill_level k t) = lca_depth t"
proof -
  have len: "k < length (lca_up t)" using inv k by (simp add: tinv_def)
  have n: "lca_n t = length a" using inv by (simp add: tinv_def)
  show "row_ok a par (fill_level k t) k"
    unfolding row_ok_def
  proof (intro allI impI)
    fix v assume v: "is_node a v"
    define mid where "mid = (par ^^ (2 ^ (k - 1))) v"
    have m: "is_node a mid" using node_funpow[OF T v] by (simp add: mid_def)
    have pv: "(lca_up t ! (k - 1)) v = Some mid" using ok v by (simp add: row_ok_def mid_def)
    have pm: "(lca_up t ! (k - 1)) mid = Some ((par ^^ (2 ^ (k - 1))) mid)"
      using ok m by (simp add: row_ok_def)
    have "(2::nat) ^ k = 2 ^ (k - 1) + 2 ^ (k - 1)"
      using k(1) by (cases k) simp_all
    then have pp: "(par ^^ (2 ^ k)) v = (par ^^ (2 ^ (k - 1))) mid"
      by (simp add: mid_def funpow_add)
    have "fill_entry (lca_up t ! (k - 1)) v = Some ((par ^^ (2 ^ k)) v)"
      using pv pm m pp by (simp add: fill_entry_def is_node_def)
    then show "(lca_up (fill_level k t) ! k) v = Some ((par ^^ (2 ^ k)) v)"
      using len v n by (simp add: fill_level_def fill_row_apply is_node_def)
  qed
  show "\<And>j. j \<noteq> k \<Longrightarrow> lca_up (fill_level k t) ! j = lca_up t ! j"
    by (simp add: fill_level_def)
  show "tinv a (fill_level k t)" using inv by (simp add: fill_level_def tinv_def)
  show "lca_depth (fill_level k t) = lca_depth t" by (simp add: fill_level_def)
qed

lemma row_ok_cong: "lca_up t' ! k = lca_up t ! k \<Longrightarrow> row_ok a par t k \<Longrightarrow> row_ok a par t' k"
  by (simp add: row_ok_def)

lemma fill_levels:
  assumes T: "rooted_tree a r par dep" and inv: "tinv a t" and ok0: "row_ok a par t 0"
  shows "1 \<le> m \<Longrightarrow> m \<le> lca_LOG t \<Longrightarrow>
     tinv a (fold fill_level [1..<m] t)
     \<and> lca_depth (fold fill_level [1..<m] t) = lca_depth t
     \<and> (\<forall>k<m. row_ok a par (fold fill_level [1..<m] t) k)"
proof (induction m)
  case 0
  then show ?case by simp
next
  case (Suc m)
  show ?case
  proof (cases "m = 0")
    case True
    then show ?thesis using inv ok0 by simp
  next
    case False
    define t1 where "t1 = fold fill_level [1..<m] t"
    have IH: "tinv a t1" "lca_depth t1 = lca_depth t" "\<forall>k<m. row_ok a par t1 k"
      using Suc False by (simp_all add: t1_def)
    have L: "lca_LOG t1 = lca_LOG t" using IH(1) inv by (simp add: tinv_def)
    have m: "0 < m" "m < lca_LOG t1" using False Suc.prems L by simp_all
    have okm: "row_ok a par t1 (m - 1)" using IH(3) m(1) by simp
    note F = fill_level_ok[OF T IH(1) m okm]
    have eq: "fold fill_level [1..<Suc m] t = fill_level m t1"
      using False by (simp add: t1_def)
    have "row_ok a par (fill_level m t1) k" if "k < Suc m" for k
    proof (cases "k = m")
      case True
      then show ?thesis using F(1) by simp
    next
      case False
      then have "k < m" using that by simp
      then show ?thesis using IH(3) F(2)[OF False] row_ok_cong by blast
    qed
    then show ?thesis using F(3,4) IH(2) eq by simp
  qed
qed

lemma LCA_new_tree:
  assumes T: "rooted_tree a r par dep"
  shows "\<exists>t. LCA_new a r = Some (Inr t) \<and> tinv a t
           \<and> (\<forall>k<lca_LOG t. row_ok a par t k)
           \<and> (\<forall>v. is_node a v \<longrightarrow> lca_depth t v = Some (int (dep v)))"
proof -
  obtain t0 where t0: "dfs r r (lca_alloc a) = Some (Inr t0)" "tinv a t0"
    "\<forall>x. is_node a x \<longrightarrow> visited par dep t0 x"
    using dfs_tree[OF T] by blast
  have ok0: "row_ok a par t0 0" using t0(3) by (simp add: row_ok_def visited_def)
  have pos: "1 \<le> lca_LOG t0"
    using ceil_log2_pos[of "max 2 (length a)"] t0(2) by (simp add: tinv_def)
  note F = fill_levels[OF T t0(2) ok0 pos order_refl]
  have L: "lca_LOG (fill_table t0) = lca_LOG t0" using F t0(2) by (simp add: fill_table_def tinv_def)
  have "LCA_new a r = Some (Inr (fill_table t0))" using t0(1) by (simp add: LCA_new_def)
  moreover have "tinv a (fill_table t0)" using F by (simp add: fill_table_def)
  moreover have "\<forall>k<lca_LOG (fill_table t0). row_ok a par (fill_table t0) k"
    using F L by (simp add: fill_table_def)
  moreover have "\<forall>v. is_node a v \<longrightarrow> lca_depth (fill_table t0) v = Some (int (dep v))"
    using F t0(3) by (simp add: fill_table_def visited_def)
  ultimately show ?thesis by blast
qed

section \<open>LCA: the query\<close>

lemma ceil_log2_le: "m \<le> 2 ^ k \<Longrightarrow> ceil_log2 m \<le> k"
proof (induction m arbitrary: k rule: ceil_log2.induct)
  case (1 m)
  show ?case
  proof (cases "m \<le> 1")
    case True
    then show ?thesis by (subst ceil_log2.simps) simp
  next
    case False
    then obtain k' where k: "k = Suc k'" using "1.prems" by (cases k) auto
    have "(m + 1) div 2 \<le> 2 ^ k'" using "1.prems" k by simp
    then have "ceil_log2 ((m + 1) div 2) \<le> k'" using "1.IH"[OF False] by simp
    then show ?thesis using False k by (subst ceil_log2.simps) simp
  qed
qed

lemma js_bit_test: "k < 32 \<Longrightarrow> js_bit_and_shl (Some (int d)) k = bit d k"
proof -
  assume k: "k < 32"
  have "js_bit_and_shl (Some (int d)) k = bit (word_of_int (int d) :: 32 word) k"
    using k by (simp add: js_bit_and_shl_def bit_iff_and_push_bit_not_eq_0)
  also have "\<dots> = bit d k" using k by (simp add: bit_of_nat_iff)
  finally show ?thesis .
qed

lemma up_at_node:
  "row_ok a par t k \<Longrightarrow> is_node a x \<Longrightarrow> up_at t k (Some x) = Some ((par ^^ (2 ^ k)) x)"
  by (simp add: up_at_def row_ok_def)

lemma mod_pow2_Suc: "d mod 2 ^ Suc m = d mod 2 ^ m + (if bit d m then 2 ^ m else 0)" for d :: nat
  using take_bit_Suc_from_most[of m d] by (simp add: take_bit_eq_mod)

lemma lift_fold:
  assumes T: "rooted_tree a r par dep" and rows: "\<forall>k<lca_LOG t. row_ok a par t k"
    and L: "lca_LOG t \<le> 32" and u: "is_node a u"
  shows "m \<le> lca_LOG t \<Longrightarrow>
     fold (\<lambda>k u. if js_bit_and_shl (Some (int d)) k then up_at t k u else u) [0..<m] (Some u)
       = Some ((par ^^ (d mod 2 ^ m)) u)"
proof (induction m)
  case 0
  then show ?case by simp
next
  case (Suc m)
  have m: "m < lca_LOG t" "m < 32" using Suc.prems L by simp_all
  have n: "is_node a ((par ^^ (d mod 2 ^ m)) u)" using node_funpow[OF T u] .
  have up: "up_at t m (Some ((par ^^ (d mod 2 ^ m)) u)) = Some ((par ^^ (2 ^ m + d mod 2 ^ m)) u)"
    using up_at_node[where t = t and k = m, OF _ n] rows m(1) by (simp add: funpow_add)
  show ?case
    using Suc.IH Suc.prems up js_bit_test[OF m(2), of d] mod_pow2_Suc[of d m]
    by (simp add: add.commute)
qed

lemma climb_fold:
  assumes T: "rooted_tree a r par dep" and rows: "\<forall>k<lca_LOG t. row_ok a par t k"
  shows "m \<le> lca_LOG t \<Longrightarrow> is_node a u \<Longrightarrow> is_node a v \<Longrightarrow> u \<noteq> v \<Longrightarrow>
     (par ^^ (2 ^ m)) u = (par ^^ (2 ^ m)) v \<Longrightarrow>
     \<exists>j. fold (\<lambda>k (u, v). if up_at t k u \<noteq> up_at t k v then (up_at t k u, up_at t k v) else (u, v))
           (rev [0..<m]) (Some u, Some v) = (Some ((par ^^ j) u), Some ((par ^^ j) v))
         \<and> (par ^^ j) u \<noteq> (par ^^ j) v \<and> par ((par ^^ j) u) = par ((par ^^ j) v)"
proof (induction m arbitrary: u v)
  case 0
  then show ?case by (intro exI[of _ 0]) simp
next
  case (Suc m)
  have m: "m < lca_LOG t" using Suc.prems(1) by simp
  have upu: "up_at t m (Some u) = Some ((par ^^ (2 ^ m)) u)"
    and upv: "up_at t m (Some v) = Some ((par ^^ (2 ^ m)) v)"
    using up_at_node[where t = t and k = m and a = a and par = par] rows m Suc.prems(2,3) by simp_all
  let ?step = "\<lambda>k (u, v). if up_at t k u \<noteq> up_at t k v then (up_at t k u, up_at t k v) else (u, v)"
  show ?case
  proof (cases "(par ^^ (2 ^ m)) u = (par ^^ (2 ^ m)) v")
    case True
    then have "fold ?step (rev [0..<Suc m]) (Some u, Some v) = fold ?step (rev [0..<m]) (Some u, Some v)"
      using upu upv by simp
    then show ?thesis using Suc.IH[OF _ Suc.prems(2,3,4) True] m by simp
  next
    case False
    define u' where "u' = (par ^^ (2 ^ m)) u"
    define v' where "v' = (par ^^ (2 ^ m)) v"
    have st: "fold ?step (rev [0..<Suc m]) (Some u, Some v) = fold ?step (rev [0..<m]) (Some u', Some v')"
      using upu upv False by (simp add: u'_def v'_def)
    have n: "is_node a u'" "is_node a v'" using node_funpow[OF T] Suc.prems(2,3) by (simp_all add: u'_def v'_def)
    have ne: "u' \<noteq> v'" using False by (simp add: u'_def v'_def)
    have "(par ^^ (2 ^ m)) u' = (par ^^ (2 ^ Suc m)) u" "(par ^^ (2 ^ m)) v' = (par ^^ (2 ^ Suc m)) v"
      by (simp_all add: u'_def v'_def funpow_add mult_2)
    then have eq: "(par ^^ (2 ^ m)) u' = (par ^^ (2 ^ m)) v'" using Suc.prems(5) by simp
    obtain j where j: "fold ?step (rev [0..<m]) (Some u', Some v') = (Some ((par ^^ j) u'), Some ((par ^^ j) v'))"
      "(par ^^ j) u' \<noteq> (par ^^ j) v'" "par ((par ^^ j) u') = par ((par ^^ j) v')"
      using Suc.IH[OF _ n ne eq] m by auto
    have "(par ^^ j) u' = (par ^^ (j + 2 ^ m)) u" "(par ^^ j) v' = (par ^^ (j + 2 ^ m)) v"
      by (simp_all add: u'_def v'_def funpow_add)
    then show ?thesis using j st by (intro exI[of _ "j + 2 ^ m"]) simp
  qed
qed

lemma funpow_split: "b \<le> i \<Longrightarrow> (f ^^ i) x = (f ^^ (i - b)) ((f ^^ b) x)"
  using funpow_add[of "i - b" b f] by simp

lemma is_lca_sym: "is_lca a par x u v \<Longrightarrow> is_lca a par x v u"
  by (auto simp: is_lca_def)

lemma proper_descendant_deeper:
  assumes T: "rooted_tree a r par dep" and y: "is_node a y" and x: "x = (par ^^ c) y" "y \<noteq> x"
  shows "dep x < dep y"
proof -
  have dx: "dep x = dep y - c" using dep_funpow[OF T y, of c] x(1) by simp
  have c: "0 < c" using x by (cases c) auto
  have "dep y \<noteq> 0"
  proof
    assume "dep y = 0"
    then have "y = r" using dep_zero_root[OF T y] by simp
    then show False using x funpow_root[OF T, of c] by simp
  qed
  then show ?thesis using dx c by simp
qed

lemma lca_of_ancestor:
  assumes T: "rooted_tree a r par dep" and u: "is_node a u" and v: "v = (par ^^ d) u"
  shows "is_lca a par v u v"
proof -
  have nv: "is_node a v" using node_funpow[OF T u] v by simp
  have "False" if y: "is_node a y" "ancestor par v y" "y \<noteq> v" "ancestor par y v" for y
  proof -
    obtain c where c: "v = (par ^^ c) y" using y(2) unfolding ancestor_def by metis
    obtain b where b: "y = (par ^^ b) v" using y(4) unfolding ancestor_def by metis
    have "dep v < dep y" using proper_descendant_deeper[OF T y(1) c y(3)] .
    moreover have "dep y = dep v - b" using dep_funpow[OF T nv, of b] b by simp
    ultimately show False by simp
  qed
  moreover have "ancestor par v u" using v by (auto simp: ancestor_def)
  moreover have "ancestor par v v" unfolding ancestor_def by (rule exI[of _ 0]) simp
  ultimately show ?thesis using nv unfolding is_lca_def by blast
qed

lemma lca_of_meeting:
  assumes T: "rooted_tree a r par dep" and u: "is_node a u" and v: "is_node a v"
    and p: "p = (par ^^ i) u" and q: "q = (par ^^ j) v"
    and ne: "p \<noteq> q" and pq: "par p = par q" and dpq: "dep p = dep q"
  shows "is_lca a par (par p) u v"
proof -
  have np: "is_node a p" and nq: "is_node a q" using node_funpow[OF T] u v p q by simp_all
  have nx: "is_node a (par p)" using node_par[OF T np] .
  have au: "ancestor par (par p) u" unfolding ancestor_def p by (rule exI[of _ "Suc i"]) simp
  have av: "ancestor par (par p) v" unfolding ancestor_def pq q by (rule exI[of _ "Suc j"]) simp
  have e1: "0 < dep p"
  proof (rule ccontr)
    assume "\<not> 0 < dep p"
    then have "p = r" "q = r" using dep_zero_root[OF T np] dep_zero_root[OF T nq] dpq by simp_all
    then show False using ne by simp
  qed
  have dx: "dep (par p) = dep p - 1" using dep_par[OF T np] .
  have dpu: "dep p = dep u - i" using dep_funpow[OF T u, of i] p by simp
  have dqv: "dep q = dep v - j" using dep_funpow[OF T v, of j] q by simp
  have "False" if y: "is_node a y" "ancestor par (par p) y" "y \<noteq> par p"
      "ancestor par y u" "ancestor par y v" for y
  proof -
    obtain c where c: "par p = (par ^^ c) y" using y(2) unfolding ancestor_def by metis
    obtain b1 where b1: "y = (par ^^ b1) u" using y(4) unfolding ancestor_def by metis
    obtain b2 where b2: "y = (par ^^ b2) v" using y(5) unfolding ancestor_def by metis
    have deep: "dep (par p) < dep y" using proper_descendant_deeper[OF T y(1) c y(3)] .
    have dy1: "dep y = dep u - b1" using dep_funpow[OF T u, of b1] b1 by simp
    have dy2: "dep y = dep v - b2" using dep_funpow[OF T v, of b2] b2 by simp
    have le1: "b1 \<le> i" using deep dx dpu dy1 e1 by linarith
    have le2: "b2 \<le> j" using deep dx dqv dy2 e1 dpq by linarith
    have "p = (par ^^ (i - b1)) y" using p b1 funpow_split[OF le1, of par u] by simp
    moreover have "q = (par ^^ (j - b2)) y" using q b2 funpow_split[OF le2, of par v] by simp
    moreover have "i - b1 = j - b2" using dpu dqv dy1 dy2 dpq e1 le1 le2 by linarith
    ultimately show False using ne by simp
  qed
  then show ?thesis using nx au av unfolding is_lca_def by blast
qed

lemma query_unfold:
  "fst (query t u0 v0) =
     (if js_lt (lca_depth t u0) (lca_depth t v0) then query_body t v0 u0 else query_body t u0 v0)"
  by (simp add: query_def query_body_def Let_def split: prod.splits)

lemma query_body_lca:
  assumes T: "rooted_tree a r par dep" and inv: "tinv a t"
    and rows: "\<forall>k<lca_LOG t. row_ok a par t k"
    and deps: "\<forall>v. is_node a v \<longrightarrow> lca_depth t v = Some (int (dep v))"
    and len: "length a \<le> 2 ^ 32"
    and u: "is_node a u" and v: "is_node a v" and le: "dep v \<le> dep u"
  shows "\<exists>x. query_body t u v = Some x \<and> is_lca a par x u v"
proof -
  define d where "d = dep u - dep v"
  define L where "L = lca_LOG t"
  have Ldef: "L = ceil_log2 (max 2 (length a))" using inv by (simp add: L_def tinv_def)
  have L32: "L \<le> 32" unfolding Ldef using len by (intro ceil_log2_le) simp
  have nL: "length a \<le> 2 ^ L"
    using ceil_log2_ge[of "max 2 (length a)"] unfolding Ldef by simp
  have du: "dep u < 2 ^ L" and dv: "dep v < 2 ^ L"
    using dep_less[OF T u] dep_less[OF T v] nL by simp_all
  have diff: "js_sub (lca_depth t u) (lca_depth t v) = Some (int d)"
    using deps u v le by (simp add: js_sub_def d_def)
  have "d mod 2 ^ L = d" using du by (simp add: d_def)
  then have lift: "lift t (Some (int d)) (Some u) = Some ((par ^^ d) u)"
    using lift_fold[OF T rows _ u order_refl, of d] L32 by (simp add: lift_def L_def)
  define u1 where "u1 = (par ^^ d) u"
  have n1: "is_node a u1" using node_funpow[OF T u] by (simp add: u1_def)
  have d1: "dep u1 = dep v" using dep_funpow[OF T u, of d] le by (simp add: u1_def d_def)
  show ?thesis
  proof (cases "u1 = v")
    case True
    then have "query_body t u v = Some v"
      using diff lift by (simp add: query_body_def u1_def)
    moreover have "v = (par ^^ d) u" using True by (simp add: u1_def)
    then have "is_lca a par v u v" by (rule lca_of_ancestor[OF T u])
    ultimately show ?thesis by blast
  next
    case False
    have top: "(par ^^ (2 ^ L)) u1 = (par ^^ (2 ^ L)) v"
      using funpow_to_root[OF T n1, of "2 ^ L"] funpow_to_root[OF T v, of "2 ^ L"] d1 dv by simp
    obtain j where j:
      "climb t (Some u1, Some v) = (Some ((par ^^ j) u1), Some ((par ^^ j) v))"
      "(par ^^ j) u1 \<noteq> (par ^^ j) v" "par ((par ^^ j) u1) = par ((par ^^ j) v)"
      using climb_fold[OF T rows _ n1 v False, of L] top unfolding climb_def L_def by blast
    define p where "p = (par ^^ j) u1"
    have np: "is_node a p" using node_funpow[OF T n1] by (simp add: p_def)
    have L0: "0 < lca_LOG t" using ceil_log2_pos[of "max 2 (length a)"] Ldef by (simp add: L_def)
    have "up_at t 0 (Some p) = Some (par p)"
      using up_at_node[where t = t and k = 0, OF _ np] rows L0 by simp
    then have res: "query_body t u v = Some (par p)"
      using diff lift False j(1) by (simp add: query_body_def u1_def[symmetric] p_def)
    have pu: "p = (par ^^ (j + d)) u" by (simp add: p_def u1_def funpow_add)
    have dp: "dep p = dep ((par ^^ j) v)"
      using dep_funpow[OF T n1, of j] dep_funpow[OF T v, of j] d1 by (simp add: p_def)
    have "is_lca a par (par p) u v"
      using lca_of_meeting[OF T u v pu refl _ _ dp] j(2,3) by (simp add: p_def)
    then show ?thesis using res by blast
  qed
qed

lemma rooted_tree3: "rooted_tree tree3 0 tree3_par tree3_dep"
proof -
  have nodes: "is_node tree3 v = (v = 0 \<or> v = 1 \<or> v = 2)" for v
    by (auto simp: is_node_def tree3_def)
  have "set (tree3 ! nat u) = {c. is_node tree3 c \<and> c \<noteq> 0 \<and> tree3_par c = u}
          \<union> (if u = 0 then {} else {tree3_par u})" if "is_node tree3 u" for u
    using that unfolding nodes by (auto simp: tree3_def tree3_par_def)
  then show ?thesis
    unfolding rooted_tree_def using nodes by (auto simp: tree3_par_def tree3_dep_def)
qed

text \<open>
  C7, as the code has it. After construction on a rooted tree, \<open>up[k][v]\<close> for a level
  \<open>k < LOG\<close> and a node \<open>v\<close> is the ancestor of \<open>v\<close> exactly \<open>2^k\<close> steps above it when \<open>v\<close> is
  at least that deep, and the root otherwise: the root is stored as its own parent, so a
  walk that would leave the tree stays at the root and the sentinel \<open>-1\<close> does not occur.
  \<open>depth[v]\<close> is the distance of \<open>v\<close> from the root.
\<close>

theorem lca_up_table:
  assumes "rooted_tree a r par dep"
  shows "\<exists>t. LCA_new a r = Some (Inr t)
           \<and> lca_LOG t = ceil_log2 (max 2 (length a)) \<and> length (lca_up t) = lca_LOG t
           \<and> (\<forall>k v. k < lca_LOG t \<and> is_node a v \<longrightarrow>
                 (lca_up t ! k) v = Some (if 2 ^ k \<le> dep v then (par ^^ (2 ^ k)) v else r))
           \<and> (\<forall>v. is_node a v \<longrightarrow> lca_depth t v = Some (int (dep v)))"
proof -
  obtain t where t: "LCA_new a r = Some (Inr t)" "tinv a t"
    "\<forall>k<lca_LOG t. row_ok a par t k"
    "\<forall>v. is_node a v \<longrightarrow> lca_depth t v = Some (int (dep v))"
    using LCA_new_tree[OF assms] by blast
  have "(lca_up t ! k) v = Some (if 2 ^ k \<le> dep v then (par ^^ (2 ^ k)) v else r)"
    if "k < lca_LOG t" "is_node a v" for k v
  proof -
    have "(lca_up t ! k) v = Some ((par ^^ (2 ^ k)) v)" using t(3) that by (simp add: row_ok_def)
    then show ?thesis using funpow_to_root[OF assms that(2), of "2 ^ k"] by simp
  qed
  then show ?thesis using t by (auto simp: tinv_def)
qed

theorem lca_up_table_witness:
  "rooted_tree tree3 0 tree3_par tree3_dep
   \<and> (\<exists>t. LCA_new tree3 0 = Some (Inr t) \<and> lca_LOG t = 2
          \<and> (lca_up t ! 0) 1 = Some 0 \<and> (lca_up t ! 1) 2 = Some 0 \<and> lca_depth t 2 = Some 1)"
proof -
  have n: "is_node tree3 1" "is_node tree3 2" by (simp_all add: is_node_def tree3_def)
  have l: "ceil_log2 (max 2 (length tree3)) = 2" by (simp add: tree3_def ceil_log2.simps)
  obtain t where t: "LCA_new tree3 0 = Some (Inr t)"
    "lca_LOG t = ceil_log2 (max 2 (length tree3))"
    "\<forall>k v. k < lca_LOG t \<and> is_node tree3 v \<longrightarrow>
        (lca_up t ! k) v = Some (if 2 ^ k \<le> tree3_dep v then (tree3_par ^^ (2 ^ k)) v else 0)"
    "\<forall>v. is_node tree3 v \<longrightarrow> lca_depth t v = Some (int (tree3_dep v))"
    using lca_up_table[OF rooted_tree3] by blast
  have "(lca_up t ! 0) 1 = Some 0" using t(3) n(1) t(2) l by (simp add: tree3_dep_def tree3_par_def)
  moreover have "(lca_up t ! 1) 2 = Some 0" using t(3) n(2) t(2) l by (simp add: tree3_dep_def)
  moreover have "lca_depth t 2 = Some 1" using t(4) n(2) by (simp add: tree3_dep_def)
  ultimately show ?thesis using rooted_tree3 t(1,2) l by auto
qed

text \<open>
  The claim fails as stated at the root, which has no ancestor one step above it:
  \<open>up[0][root]\<close> is the root itself, not the sentinel.
\<close>

theorem lca_up_table_counterexample:
  "rooted_tree tree3 0 tree3_par tree3_dep \<and> tree3_dep 0 < 2 ^ 0
   \<and> (case LCA_new tree3 0 of Some (Inr t) \<Rightarrow> (lca_up t ! 0) 0 | _ \<Rightarrow> None) = Some 0
   \<and> Some (0::int) \<noteq> Some (- 1)"
proof -
  obtain t where t: "LCA_new tree3 0 = Some (Inr t)" "\<forall>k<lca_LOG t. row_ok tree3 tree3_par t k"
    "tinv tree3 t"
    using LCA_new_tree[OF rooted_tree3] by blast
  have "0 < lca_LOG t" using ceil_log2_pos[of "max 2 (length tree3)"] t(3) by (simp add: tinv_def)
  then have "(lca_up t ! 0) 0 = Some 0"
    using t(2) by (simp add: row_ok_def is_node_def tree3_def tree3_par_def)
  then show ?thesis using t(1) rooted_tree3 by (simp add: tree3_dep_def)
qed

text \<open>
  C3. On a rooted tree of at most \<open>2^32\<close> nodes (the bound on the length of a JavaScript
  array) and for nodes \<open>u\<close> and \<open>v\<close> in range, \<open>query(u, v)\<close> returns a node that is an
  ancestor of both and has no proper descendant that is an ancestor of both; and
  \<open>query(u, u)\<close> returns \<open>u\<close>.
\<close>

theorem lca_query_lowest_common_ancestor:
  assumes "rooted_tree a r par dep" and "length a \<le> 2 ^ 32"
    and "is_node a u" and "is_node a v"
  shows "\<exists>t. LCA_new a r = Some (Inr t)
           \<and> (\<exists>x. fst (query t u v) = Some x \<and> is_lca a par x u v)
           \<and> fst (query t u u) = Some u"
proof -
  obtain t where t: "LCA_new a r = Some (Inr t)" "tinv a t"
    "\<forall>k<lca_LOG t. row_ok a par t k"
    "\<forall>v. is_node a v \<longrightarrow> lca_depth t v = Some (int (dep v))"
    using LCA_new_tree[OF assms(1)] by blast
  note B = query_body_lca[OF assms(1) t(2,3,4) assms(2)]
  have "\<exists>x. fst (query t u v) = Some x \<and> is_lca a par x u v"
  proof (cases "dep u < dep v")
    case True
    then have "fst (query t u v) = query_body t v u"
      using t(4) assms(3,4) by (simp add: query_unfold js_lt_def)
    then show ?thesis using B[OF assms(4,3)] True is_lca_sym by fastforce
  next
    case False
    then have "fst (query t u v) = query_body t u v"
      using t(4) assms(3,4) by (simp add: query_unfold js_lt_def)
    then show ?thesis using B[OF assms(3,4)] False by fastforce
  qed
  then show ?thesis using t(1) by (auto simp: query_same)
qed

theorem lca_query_lowest_common_ancestor_witness:
  "rooted_tree tree3 0 tree3_par tree3_dep \<and> length tree3 \<le> 2 ^ 32
   \<and> is_node tree3 1 \<and> is_node tree3 2
   \<and> (\<exists>t. LCA_new tree3 0 = Some (Inr t)
          \<and> (\<exists>x. fst (query t 1 2) = Some x \<and> is_lca tree3 tree3_par x 1 2)
          \<and> fst (query t 1 1) = Some 1)"
proof -
  have n: "is_node tree3 1" "is_node tree3 2" by (simp_all add: is_node_def tree3_def)
  have l: "length tree3 \<le> 2 ^ 32" by (simp add: tree3_def)
  show ?thesis
    using lca_query_lowest_common_ancestor[OF rooted_tree3 l n] rooted_tree3 l n by blast
qed

section \<open>LCA: inputs that are not trees\<close>

lemma same_unreached_refl: "same_unreached a rt t t"
  by (simp add: same_unreached_def)

lemma same_unreached_trans:
  "same_unreached a rt t t' \<Longrightarrow> same_unreached a rt t' t'' \<Longrightarrow> same_unreached a rt t t''"
  by (simp add: same_unreached_def)

lemma same_unreached_visit:
  "reach a rt v \<Longrightarrow> same_unreached a rt t (set_parent v u (set_depth v u t))"
  by (cases "lca_up t") (auto simp: same_unreached_def set_parent_def set_depth_def)

lemma dfs_loop_unreached:
  assumes "dfs_loop u p vs t = Some res"
  shows "lca_adj t = a \<longrightarrow> (\<forall>v \<in> set vs. reach a rt v) \<longrightarrow>
           (\<forall>t'. res = Inr t' \<longrightarrow> same_unreached a rt t t')"
proof (rule dfs_loop.raw_induct[where P = "\<lambda>u p vs t res.
          lca_adj t = a \<longrightarrow> (\<forall>v \<in> set vs. reach a rt v) \<longrightarrow>
           (\<forall>t'. res = Inr t' \<longrightarrow> same_unreached a rt t t')", OF _ assms], goal_cases)
  case (1 loop u p vs t res)
  note IH = "1"(1) and eq = "1"(2)
  show ?case
  proof (intro impI allI)
    fix t'
    assume adj: "lca_adj t = a" and rs: "\<forall>v \<in> set vs. reach a rt v" and res: "res = Inr t'"
    show "same_unreached a rt t t'"
    proof (cases vs)
      case Nil
      then show ?thesis using eq res by (simp add: same_unreached_refl)
    next
      case (Cons v vs')
      have rv: "reach a rt v" and rs': "\<forall>v \<in> set vs'. reach a rt v" using rs Cons by simp_all
      show ?thesis
      proof (cases "v = p")
        case True
        then have l: "loop u p vs' t = Some res" using eq Cons by simp
        show ?thesis using IH[OF l] adj rs' res by blast
      next
        case False
        define t2 where "t2 = set_parent v u (set_depth v u t)"
        have s2: "same_unreached a rt t t2" unfolding t2_def by (rule same_unreached_visit[OF rv])
        have adj2: "lca_adj t2 = a" using s2 adj by (simp add: same_unreached_def)
        show ?thesis
        proof (cases "js_index a v")
          case None
          then show ?thesis using eq Cons False res adj2 by (simp add: t2_def[symmetric] Let_def)
        next
          case (Some cs)
          have b: "Option.bind (loop v u cs t2)
                     (\<lambda>r. case r of Inl e \<Rightarrow> Some (Inl e) | Inr t3 \<Rightarrow> loop u p vs' t3) = Some res"
            using eq Cons False Some adj2 by (simp add: t2_def[symmetric] Let_def)
          then obtain r3 where r3: "loop v u cs t2 = Some r3"
            "(case r3 of Inl e \<Rightarrow> Some (Inl e) | Inr t3 \<Rightarrow> loop u p vs' t3) = Some res"
            by (cases "loop v u cs t2") auto
          then obtain t3 where t3: "r3 = Inr t3" "loop u p vs' t3 = Some res"
            using res by (cases r3) auto
          have rc: "\<forall>c \<in> set cs. reach a rt c" using reach_step[OF rv Some] by blast
          have s3: "same_unreached a rt t2 t3" using IH[OF r3(1)] adj2 rc t3(1) by blast
          have adj3: "lca_adj t3 = a" using s3 adj2 by (simp add: same_unreached_def)
          have s4: "same_unreached a rt t3 t'" using IH[OF t3(2)] adj3 rs' res by blast
          show ?thesis using same_unreached_trans[OF same_unreached_trans[OF s2 s3] s4] .
        qed
      qed
    qed
  qed
qed

lemma fill_level_fields:
  "lca_n (fill_level k t) = lca_n t" "lca_LOG (fill_level k t) = lca_LOG t"
  "length (lca_up (fill_level k t)) = length (lca_up t)"
  "lca_depth (fill_level k t) = lca_depth t" "lca_adj (fill_level k t) = lca_adj t"
  by (simp_all add: fill_level_def)

lemma fold_fill_level_fields:
  "lca_n (fold fill_level ks t) = lca_n t \<and> lca_LOG (fold fill_level ks t) = lca_LOG t
   \<and> length (lca_up (fold fill_level ks t)) = length (lca_up t)
   \<and> lca_depth (fold fill_level ks t) = lca_depth t \<and> lca_adj (fold fill_level ks t) = lca_adj t"
  by (induction ks arbitrary: t) (simp_all add: fill_level_fields)

lemma fill_levels_unreached:
  assumes v: "0 \<le> v" "v < int (lca_n t)" and row0: "(lca_up t ! 0) v = Some (- 1)"
  shows "m \<le> length (lca_up t) \<Longrightarrow> \<forall>k<m. (lca_up (fold fill_level [1..<m] t) ! k) v = Some (- 1)"
proof (induction m)
  case 0
  then show ?case by simp
next
  case (Suc m)
  show ?case
  proof (cases "m = 0")
    case True
    then show ?thesis using row0 by simp
  next
    case False
    define t1 where "t1 = fold fill_level [1..<m] t"
    have F: "lca_n t1 = lca_n t" "length (lca_up t1) = length (lca_up t)"
      using fold_fill_level_fields[of "[1..<m]" t] by (simp_all add: t1_def)
    have IH: "\<forall>k<m. (lca_up t1 ! k) v = Some (- 1)" using Suc by (simp add: t1_def)
    have eq: "fold fill_level [1..<Suc m] t = fill_level m t1" using False by (simp add: t1_def)
    have m: "m < length (lca_up t1)" using Suc.prems F by simp
    have prev: "(lca_up t1 ! (m - 1)) v = Some (- 1)" using IH False by simp
    have "(lca_up (fill_level m t1) ! k) v = Some (- 1)" if "k < Suc m" for k
    proof (cases "k = m")
      case True
      then show ?thesis
        using m prev v F by (simp add: fill_level_def fill_row_apply fill_entry_def)
    next
      case ne: False
      then have "k < m" using that by simp
      then show ?thesis using IH ne by (simp add: fill_level_def)
    qed
    then show ?thesis using eq by simp
  qed
qed

lemma LCA_new_bad_root:
  assumes "\<not> is_node a rt"
  shows "LCA_new a rt = Some (Inl TypeError)"
proof -
  have "js_index a rt = None" using assms by (simp add: js_index_def is_node_def)
  then show ?thesis
    by (simp add: LCA_new_def dfs_def set_parent_def lca_alloc_def Let_def)
qed

lemma LCA_new_unreached:
  assumes t: "LCA_new a rt = Some (Inr t)" and v: "is_node a v" and nr: "\<not> reach a rt v"
  shows "(\<forall>k<lca_LOG t. (lca_up t ! k) v = Some (- 1)) \<and> lca_depth t v = Some 0"
proof -
  obtain t0 where t0: "dfs rt rt (lca_alloc a) = Some (Inr t0)" "t = fill_table t0"
    using t by (auto simp: LCA_new_def split: option.splits sum.splits)
  define t1 where "t1 = set_parent rt rt (lca_alloc a)"
  obtain cs where cs: "js_index a rt = Some cs" "dfs_loop rt rt cs t1 = Some (Inr t0)"
    using t0(1) by (auto simp: dfs_def Let_def t1_def set_parent_def lca_alloc_def split: option.splits)
  have adj1: "lca_adj t1 = a" by (simp add: t1_def set_parent_def lca_alloc_def Let_def)
  have rc: "\<forall>c \<in> set cs. reach a rt c" using reach_step[OF reach_root cs(1)] by blast
  have s: "same_unreached a rt t1 t0" using dfs_loop_unreached[OF cs(2)] adj1 rc by blast
  have vr: "v \<noteq> rt" using nr reach_root by auto
  have pos: "0 < ceil_log2 (max 2 (length a))" by (rule ceil_log2_pos) simp
  have up1: "(lca_up t1 ! 0) v = Some (- 1)" and d1: "lca_depth t1 v = Some 0"
    using v vr pos
    by (simp_all add: t1_def set_parent_def lca_alloc_def Let_def new_array_def is_node_def)
  have f1: "lca_n t1 = length a" "lca_LOG t1 = ceil_log2 (max 2 (length a))"
    "length (lca_up t1) = ceil_log2 (max 2 (length a))"
    by (simp_all add: t1_def set_parent_def lca_alloc_def Let_def)
  have f0: "lca_n t0 = length a" "lca_LOG t0 = length (lca_up t0)"
    "(lca_up t0 ! 0) v = Some (- 1)" "lca_depth t0 v = Some 0"
    using s nr up1 d1 f1 by (simp_all add: same_unreached_def)
  have vv: "0 \<le> v" "v < int (lca_n t0)" using v f0(1) by (simp_all add: is_node_def)
  have "\<forall>k<lca_LOG t0. (lca_up (fill_table t0) ! k) v = Some (- 1)"
    using fill_levels_unreached[OF vv f0(3), of "lca_LOG t0"] f0(2) by (simp add: fill_table_def)
  moreover have "lca_LOG t = lca_LOG t0" "lca_depth t = lca_depth t0"
    using fold_fill_level_fields[of "[1..<lca_LOG t0]" t0] t0(2) by (simp_all add: fill_table_def)
  ultimately show ?thesis using f0(4) t0(2) by simp
qed

text \<open>
  C5, as the code has it. The constructor does not check that its input is a tree. It ends
  in an error when the root is outside \<open>0..n-1\<close> (the \<open>TypeError\<close> of iterating the missing
  \<open>adj[root]\<close>). Nodes that the traversal from the root does not reach are not detected:
  whenever the constructor returns, each of them keeps \<open>up[k][v] = -1\<close> at every level and
  \<open>depth[v] = 0\<close>.
\<close>

theorem lca_construction_unchecked:
  "(\<not> is_node a rt \<longrightarrow> LCA_new a rt = Some (Inl TypeError))
   \<and> (\<forall>t v. LCA_new a rt = Some (Inr t) \<and> is_node a v \<and> \<not> reach a rt v \<longrightarrow>
          (\<forall>k<lca_LOG t. (lca_up t ! k) v = Some (- 1)) \<and> lca_depth t v = Some 0)"
  using LCA_new_bad_root[of a rt] LCA_new_unreached[of a rt] by blast

lemma two_isolated_run:
  "\<exists>t. LCA_new two_isolated 0 = Some (Inr t) \<and> lca_LOG t = 1"
  by (simp add: LCA_new_def dfs_def set_parent_def lca_alloc_def Let_def two_isolated_def
      js_index_def dfs_loop_Nil fill_table_def ceil_log2.simps)

lemma two_isolated_unreached: "\<not> reach two_isolated 0 1"
proof
  assume "reach two_isolated 0 1"
  then show False
    by (cases rule: reach.cases) (auto simp: two_isolated_def js_index_def nth_Cons' split: if_splits)
qed

theorem lca_construction_unchecked_witness:
  "\<not> is_node two_isolated 5 \<and> LCA_new two_isolated 5 = Some (Inl TypeError)
   \<and> is_node two_isolated 1 \<and> \<not> reach two_isolated 0 1
   \<and> (\<exists>t. LCA_new two_isolated 0 = Some (Inr t) \<and> lca_LOG t = 1
          \<and> (lca_up t ! 0) 1 = Some (- 1) \<and> lca_depth t 1 = Some 0)"
proof -
  have n5: "\<not> is_node two_isolated 5" and n1: "is_node two_isolated 1"
    by (simp_all add: is_node_def two_isolated_def)
  obtain t where t: "LCA_new two_isolated 0 = Some (Inr t)" "lca_LOG t = 1"
    using two_isolated_run by blast
  note U = lca_construction_unchecked[of two_isolated]
  have "LCA_new two_isolated 5 = Some (Inl TypeError)" using U[of 5] n5 by blast
  moreover have "(lca_up t ! 0) 1 = Some (- 1) \<and> lca_depth t 1 = Some 0"
    using U[of 0] t n1 two_isolated_unreached by auto
  ultimately show ?thesis using n5 n1 two_isolated_unreached t by blast
qed

text \<open>
  The claim fails as stated: with two nodes and no edge, node 1 is not reachable from the
  root, so the input is no rooted tree, and the constructor returns an object all the same.
\<close>

theorem lca_construction_counterexample:
  "(\<forall>par dep. \<not> rooted_tree two_isolated 0 par dep)
   \<and> (case LCA_new two_isolated 0 of Some (Inr t) \<Rightarrow> True | _ \<Rightarrow> False)"
proof -
  have "\<not> rooted_tree two_isolated 0 par dep" for par dep
  proof
    assume T: "rooted_tree two_isolated 0 par dep"
    have n1: "is_node two_isolated 1" by (simp add: is_node_def two_isolated_def)
    have "1 \<in> set (two_isolated ! nat (par 1))" using child_in_adj(1)[OF T n1] by simp
    moreover have "is_node two_isolated (par 1)" using node_par[OF T n1] .
    then have "two_isolated ! nat (par 1) = []"
      by (auto simp: is_node_def two_isolated_def nth_Cons' split: if_splits)
    ultimately show False by simp
  qed
  then show ?thesis using two_isolated_run by auto
qed

section \<open>astarGrid: shortest paths\<close>

lemma grid_path_code [code]:
  "grid_path g start goal p =
     (p \<noteq> [] \<and> hd p = start \<and> last p = goal \<and> list_all (free g) p
      \<and> list_all (\<lambda>j. step (p ! j) (p ! Suc j)) [0..<length p - 1])"
  unfolding grid_path_def list_all_iff by (rule arg_cong2[where f = "(\<and>)"] refl)+ auto

lemma scan_fold:
  "fold (\<lambda>(k, f) (curKey, curF). if Fin f < curF then (Some k, Fin f) else (curKey, curF)) es (ck, cf)
     = (ck', cf') \<Longrightarrow>
   cf' \<le> cf \<and> (\<forall>(c, f) \<in> set es. cf' \<le> Fin f)
   \<and> ((ck', cf') = (ck, cf) \<or> (\<exists>(c, f) \<in> set es. ck' = Some c \<and> cf' = Fin f))"
proof (induction es arbitrary: ck cf)
  case Nil
  then show ?case by simp
next
  case (Cons e es)
  obtain k f where e: "e = (k, f)" by (cases e)
  show ?case
  proof (cases "Fin f < cf")
    case True
    then have "fold (\<lambda>(k, f) (curKey, curF). if Fin f < curF then (Some k, Fin f) else (curKey, curF)) es
        (Some k, Fin f) = (ck', cf')" using Cons.prems e by simp
    from Cons.IH[OF this] have A: "cf' \<le> Fin f" and B: "\<forall>(c, f) \<in> set es. cf' \<le> Fin f"
      and D: "(ck', cf') = (Some k, Fin f) \<or> (\<exists>(c, f) \<in> set es. ck' = Some c \<and> cf' = Fin f)"
      by auto
    have "cf' \<le> cf" using A True by (meson less_imp_le order_trans)
    then show ?thesis using A B D e by auto
  next
    case False
    then have "fold (\<lambda>(k, f) (curKey, curF). if Fin f < curF then (Some k, Fin f) else (curKey, curF)) es
        (ck, cf) = (ck', cf')" using Cons.prems e by simp
    from Cons.IH[OF this] have A: "cf' \<le> cf" and B: "\<forall>(c, f) \<in> set es. cf' \<le> Fin f"
      and D: "(ck', cf') = (ck, cf) \<or> (\<exists>(c, f) \<in> set es. ck' = Some c \<and> cf' = Fin f)"
      by auto
    have "cf \<le> Fin f" using False by simp
    then have "cf' \<le> Fin f" using A by (rule order_trans[rotated])
    then show ?thesis using A B D e by auto
  qed
qed

lemma scan_open_min:
  assumes "es \<noteq> []"
  shows "\<exists>c f. fst (scan_open es) = Some c \<and> (c, f) \<in> set es \<and> (\<forall>(c', f') \<in> set es. f \<le> f')"
proof -
  obtain ck' cf' where r: "scan_open es = (ck', cf')" by (cases "scan_open es")
  note S = scan_fold[OF r[unfolded scan_open_def]]
  obtain c0 f0 where "(c0, f0) \<in> set es" using assms by (cases es) auto
  then have "cf' \<le> Fin f0" using S by auto
  then have "cf' \<noteq> Infinity" by auto
  then obtain c f where cf: "(c, f) \<in> set es" "ck' = Some c" "cf' = Fin f" using S by auto
  then have "\<forall>(c', f') \<in> set es. f \<le> f'" using S by auto
  then show ?thesis using cf r by auto
qed

lemma scan_open_map_of:
  assumes "es \<noteq> []" and "distinct (map fst es)"
  shows "\<exists>c f. fst (scan_open es) = Some c \<and> map_of es c = Some f
           \<and> (\<forall>c' f'. map_of es c' = Some f' \<longrightarrow> f \<le> f')"
proof -
  obtain c f where cf: "fst (scan_open es) = Some c" "(c, f) \<in> set es"
    "\<forall>(c', f') \<in> set es. f \<le> f'"
    using scan_open_min[OF assms(1)] by blast
  have "map_of es c = Some f" using cf(2) assms(2) by simp
  moreover have "f \<le> f'" if "map_of es c' = Some f'" for c' f'
    using map_of_SomeD[OF that] cf(3) by auto
  ultimately show ?thesis using cf(1) by blast
qed

lemma passable_free:
  assumes "rectangular g"
  shows "passable (length g) (length (g ! 0)) g c = free g c"
proof (cases "0 \<le> fst c \<and> fst c < int (length g)")
  case True
  then have "nat (fst c) < length g" by linarith
  then have "g ! nat (fst c) \<in> set g" by (rule nth_mem)
  then have "length (g ! nat (fst c)) = length (g ! 0)" using assms by (simp add: rectangular_def)
  then show ?thesis using True by (auto simp: passable_def free_def inBounds_def js_index_def)
next
  case False
  then show ?thesis by (auto simp: passable_def free_def inBounds_def)
qed

lemma expand_eq:
  "expand R C goal cur (Some kc) d s =
     (let nk = (fst cur + fst d, snd cur + snd d)
      in if passable R C (grid s) nk \<and> (case gScore s nk of None \<Rightarrow> True | Some k \<Rightarrow> kc + 1 < k)
         then s\<lparr>parent := (parent s)(nk \<mapsto> Some cur),
                gScore := (gScore s)(nk \<mapsto> kc + 1),
                open_map := AList.update nk (kc + 1 + h goal nk) (open_map s)\<rparr>
         else s)"
  by (auto simp: expand_def passable_def Let_def)

lemma dirs_nonzero: "d \<in> set dirs \<Longrightarrow> (fst c + fst d, snd c + snd d) \<noteq> c"
  by (cases c) (auto simp: dirs_def)

lemma ainv_grid: "ainv g start goal s \<Longrightarrow> grid s = g"
  and ainv_start: "ainv g start goal s \<Longrightarrow> gScore s start = Some 0 \<and> parent s start = Some None"
  and ainv_nonneg: "ainv g start goal s \<Longrightarrow> gScore s c = Some k \<Longrightarrow> 0 \<le> k"
  and ainv_parent: "ainv g start goal s \<Longrightarrow> gScore s c = Some k \<Longrightarrow> c \<noteq> start \<Longrightarrow>
      free g c \<and> (\<exists>q kq. parent s c = Some (Some q) \<and> step q c \<and> gScore s q = Some kq \<and> kq < k)"
  and ainv_distinct: "ainv g start goal s \<Longrightarrow> distinct (map fst (open_map s))"
  and ainv_open: "ainv g start goal s \<Longrightarrow> map_of (open_map s) c = Some f \<Longrightarrow>
      \<exists>k. gScore s c = Some k \<and> f = k + h goal c"
  unfolding ainv_def by blast+

lemma expand_ainv:
  assumes I: "ainv g start goal s" and rect: "rectangular g"
    and RC: "R = length g" "C = length (g ! 0)"
    and cur: "gScore s cur = Some kc" and d: "d \<in> set dirs"
  shows "ainv g start goal (expand R C goal cur (Some kc) d s)"
proof -
  define nk where "nk = (fst cur + fst d, snd cur + snd d)"
  have gs: "grid s = g" using ainv_grid[OF I] .
  show ?thesis
  proof (cases "passable R C (grid s) nk \<and> (case gScore s nk of None \<Rightarrow> True | Some k \<Rightarrow> kc + 1 < k)")
    case False
    then have "expand R C goal cur (Some kc) d s = s"
      unfolding expand_eq nk_def Let_def by (rule if_not_P)
    then show ?thesis using I by simp
  next
    case True
    define s' where "s' = s\<lparr>parent := (parent s)(nk \<mapsto> Some cur),
                gScore := (gScore s)(nk \<mapsto> kc + 1),
                open_map := AList.update nk (kc + 1 + h goal nk) (open_map s)\<rparr>"
    have eq: "expand R C goal cur (Some kc) d s = s'"
      using True by (simp add: expand_eq nk_def[symmetric] Let_def s'_def)
    have fr: "free g nk" using True passable_free[OF rect, of nk] RC gs by simp
    have lt: "\<And>k. gScore s nk = Some k \<Longrightarrow> kc + 1 < k" using True by auto
    have kc0: "0 \<le> kc" using ainv_nonneg[OF I cur] .
    have ncur: "nk \<noteq> cur" using dirs_nonzero[OF d, of cur] by (simp add: nk_def)
    have nstart: "nk \<noteq> start"
    proof
      assume "nk = start"
      then have "gScore s nk = Some 0" using ainv_start[OF I] by simp
      then show False using lt[of 0] kc0 by simp
    qed
    have st: "step cur nk" using d by (auto simp: step_def nk_def)
    have 1: "grid s' = g" using gs by (simp add: s'_def)
    have 2: "gScore s' start = Some 0 \<and> parent s' start = Some None"
      using ainv_start[OF I] nstart by (simp add: s'_def)
    have 3: "\<forall>c k. gScore s' c = Some k \<longrightarrow> 0 \<le> k"
      using ainv_nonneg[OF I] kc0 by (simp add: s'_def)
    have 4: "free g c \<and> (\<exists>q kq. parent s' c = Some (Some q) \<and> step q c
                              \<and> gScore s' q = Some kq \<and> kq < k)"
      if c: "gScore s' c = Some k" "c \<noteq> start" for c k
    proof (cases "c = nk")
      case True
      then have "k = kc + 1" using c(1) by (simp add: s'_def)
      moreover have "gScore s' cur = Some kc" using cur ncur by (simp add: s'_def)
      ultimately show ?thesis using True fr st by (auto simp: s'_def)
    next
      case False
      then have "gScore s c = Some k" using c(1) by (simp add: s'_def)
      then obtain q kq where q: "free g c" "parent s c = Some (Some q)" "step q c"
        "gScore s q = Some kq" "kq < k"
        using ainv_parent[OF I _ c(2)] by blast
      have "\<exists>kq'. gScore s' q = Some kq' \<and> kq' < k"
      proof (cases "q = nk")
        case True
        then show ?thesis using lt[of kq] q(4,5) by (simp add: s'_def)
      next
        case False
        then show ?thesis using q(4,5) by (simp add: s'_def)
      qed
      then show ?thesis using q(1,2,3) False by (auto simp: s'_def)
    qed
    have 5: "distinct (map fst (open_map s'))"
      using ainv_distinct[OF I] by (simp add: s'_def distinct_update)
    have 6: "\<exists>k. gScore s' c = Some k \<and> f = k + h goal c"
      if m: "map_of (open_map s') c = Some f" for c f
    proof (cases "c = nk")
      case True
      then show ?thesis using m by (simp add: s'_def update_conv')
    next
      case False
      then have "map_of (open_map s) c = Some f" using m by (simp add: s'_def update_conv')
      then show ?thesis using ainv_open[OF I] False by (simp add: s'_def)
    qed
    show ?thesis unfolding eq ainv_def using 1 2 3 4 5 6 by blast
  qed
qed

lemma amono_refl: "amono s s"
  by (simp add: amono_def)

lemma amono_trans:
  assumes "amono s s'" and "amono s' s''"
  shows "amono s s''"
proof -
  have 1: "grid s'' = grid s" using assms by (simp add: amono_def)
  have 2: "\<exists>k''. gScore s'' c = Some k'' \<and> k'' \<le> k" if gk: "gScore s c = Some k" for c k
  proof -
    obtain k' where k': "gScore s' c = Some k'" "k' \<le> k" using assms(1) gk unfolding amono_def by blast
    obtain k'' where "gScore s'' c = Some k''" "k'' \<le> k'" using assms(2) k'(1) unfolding amono_def by blast
    then show ?thesis using k'(2) by auto
  qed
  have 3: "map_of (open_map s'') c \<noteq> None" if "map_of (open_map s) c \<noteq> None" for c
    using assms that unfolding amono_def by blast
  have 4: "map_of (open_map s'') c \<noteq> None" if "gScore s'' c \<noteq> gScore s c" for c
  proof (cases "gScore s'' c = gScore s' c")
    case True
    then have "gScore s' c \<noteq> gScore s c" using that by simp
    then show ?thesis using assms unfolding amono_def by blast
  next
    case False
    then show ?thesis using assms(2) unfolding amono_def by blast
  qed
  show ?thesis unfolding amono_def using 1 2 3 4 by blast
qed

lemma finite_cells: "finite (cells g)"
  by (simp add: cells_def)

lemma free_in_cells: "rectangular g \<Longrightarrow> free g c \<Longrightarrow> c \<in> cells g"
proof -
  assume r: "rectangular g" and f: "free g c"
  have "nat (fst c) < length g" using f unfolding free_def by linarith
  then have "g ! nat (fst c) \<in> set g" by (rule nth_mem)
  then have "length (g ! nat (fst c)) = length (g ! 0)" using r by (simp add: rectangular_def)
  then show ?thesis using f by (cases c) (auto simp: cells_def free_def)
qed

lemma aprogress_trans: "aprogress s'' s' \<Longrightarrow> aprogress s' s \<Longrightarrow> aprogress s'' s"
  by (auto simp: aprogress_def)

lemma aprogress_aless: "aprogress s' s \<Longrightarrow> (s', s) \<in> aless"
  by (auto simp: aprogress_def aless_def ameasure_def)

lemma wf_aless: "wf aless"
  unfolding aless_def by (intro wf_inv_image wf_lex_prod wf_less_than)

lemma expand_step_facts:
  assumes I: "ainv g start goal s" and rect: "rectangular g"
    and RC: "R = length g" "C = length (g ! 0)"
    and cur: "gScore s cur = Some kc" and d: "d \<in> set dirs"
  defines "s' \<equiv> expand R C goal cur (Some kc) d s"
  defines "nk \<equiv> (fst cur + fst d, snd cur + snd d)"
  shows "amono s s'" and "gScore s' cur = Some kc" and "s' = s \<or> aprogress s' s"
    and "free g nk \<longrightarrow> (\<exists>k'. gScore s' nk = Some k' \<and> k' \<le> kc + 1)"
proof -
  have gs: "grid s = g" using ainv_grid[OF I] .
  have pf: "passable R C (grid s) nk = free g nk" using passable_free[OF rect, of nk] RC gs by simp
  have ncur: "nk \<noteq> cur" using dirs_nonzero[OF d, of cur] by (simp add: nk_def)
  have kc0: "0 \<le> kc" using ainv_nonneg[OF I cur] .
  have all: "amono s s' \<and> gScore s' cur = Some kc \<and> (s' = s \<or> aprogress s' s)
       \<and> (free g nk \<longrightarrow> (\<exists>k'. gScore s' nk = Some k' \<and> k' \<le> kc + 1))"
  proof (cases "free g nk \<and> (case gScore s nk of None \<Rightarrow> True | Some k \<Rightarrow> kc + 1 < k)")
    case False
    then have eq: "s' = s"
      unfolding s'_def expand_eq nk_def[symmetric] Let_def pf by (rule if_not_P)
    have "\<exists>k'. gScore s nk = Some k' \<and> k' \<le> kc + 1" if fr: "free g nk"
      using False fr by (cases "gScore s nk") auto
    then show ?thesis
      using eq cur by (simp add: amono_refl)
  next
    case True
    define t where "t = s\<lparr>parent := (parent s)(nk \<mapsto> Some cur),
                gScore := (gScore s)(nk \<mapsto> kc + 1),
                open_map := AList.update nk (kc + 1 + h goal nk) (open_map s)\<rparr>"
    have eq: "s' = t"
      using True unfolding s'_def expand_eq nk_def[symmetric] Let_def pf t_def by simp
    have lt: "\<And>k. gScore s nk = Some k \<Longrightarrow> kc + 1 < k" using True by auto
    have m: "amono s t"
      unfolding amono_def using lt by (auto simp: t_def update_conv')
    have c: "gScore t cur = Some kc" using cur ncur by (simp add: t_def)
    have n: "gScore t nk = Some (kc + 1)" by (simp add: t_def)
    have inc: "nk \<in> cells (grid s)" using free_in_cells[OF rect, of nk] True gs by simp
    have S: "(\<Sum>x\<in>cells (grid s). r (gScore t x)) + r (gScore s nk)
           = (\<Sum>x\<in>cells (grid s). r (gScore s x)) + r (Some (kc + 1))" for r :: "int option \<Rightarrow> nat"
      using sum_upd_fin[OF finite_cells inc, of r "gScore s" "kc + 1"] by (simp add: t_def)
    have gt: "grid t = grid s" by (simp add: t_def)
    have m1: "fst (ameasure u) = (\<Sum>x\<in>cells (grid u). rank_undef (gScore u x))"
      and m2: "fst (snd (ameasure u)) = (\<Sum>x\<in>cells (grid u). rank_val (gScore u x))" for u
      by (simp_all add: ameasure_def)
    have p: "aprogress t s"
    proof (cases "gScore s nk")
      case None
      have "fst (ameasure t) + 1 = fst (ameasure s) + 0"
        using S[of rank_undef] None unfolding m1 gt by (simp add: rank_undef_def)
      then show ?thesis using gt by (simp add: aprogress_def)
    next
      case (Some k)
      have "fst (ameasure t) + 0 = fst (ameasure s) + 0"
        using S[of rank_undef] Some unfolding m1 gt by (simp add: rank_undef_def)
      moreover have "fst (snd (ameasure t)) + nat k = fst (snd (ameasure s)) + nat (kc + 1)"
        using S[of rank_val] Some unfolding m2 gt by (simp add: rank_val_def)
      moreover have "nat (kc + 1) < nat k" using lt[OF Some] kc0 by simp
      ultimately have "fst (ameasure t) = fst (ameasure s)"
        "fst (snd (ameasure t)) < fst (snd (ameasure s))" by linarith+
      then show ?thesis using gt by (simp add: aprogress_def)
    qed
    show ?thesis
      using eq m c n p by simp
  qed
  show "amono s s'" "gScore s' cur = Some kc" "s' = s \<or> aprogress s' s"
    "free g nk \<longrightarrow> (\<exists>k'. gScore s' nk = Some k' \<and> k' \<le> kc + 1)"
    using all by blast+
qed

lemma fold_expand_facts:
  assumes rect: "rectangular g" and RC: "R = length g" "C = length (g ! 0)"
  shows "ainv g start goal s \<Longrightarrow> gScore s cur = Some kc \<Longrightarrow> set ds \<subseteq> set dirs \<Longrightarrow>
     ainv g start goal (fold (expand R C goal cur (Some kc)) ds s)
     \<and> amono s (fold (expand R C goal cur (Some kc)) ds s)
     \<and> gScore (fold (expand R C goal cur (Some kc)) ds s) cur = Some kc
     \<and> (fold (expand R C goal cur (Some kc)) ds s = s
          \<or> aprogress (fold (expand R C goal cur (Some kc)) ds s) s)
     \<and> (\<forall>d\<in>set ds. free g (fst cur + fst d, snd cur + snd d) \<longrightarrow>
           (\<exists>k'. gScore (fold (expand R C goal cur (Some kc)) ds s) (fst cur + fst d, snd cur + snd d)
                   = Some k' \<and> k' \<le> kc + 1))"
proof (induction ds arbitrary: s)
  case Nil
  then show ?case by (simp add: amono_refl)
next
  case (Cons d ds)
  define t where "t = expand R C goal cur (Some kc) d s"
  define u where "u = fold (expand R C goal cur (Some kc)) ds t"
  have d: "d \<in> set dirs" and ds: "set ds \<subseteq> set dirs" using Cons.prems(3) by auto
  have It: "ainv g start goal t"
    unfolding t_def by (rule expand_ainv[OF Cons.prems(1) rect RC Cons.prems(2) d])
  note F = expand_step_facts[OF Cons.prems(1) rect RC Cons.prems(2) d, folded t_def]
  note H = Cons.IH[OF It F(2) ds, folded u_def]
  have u: "fold (expand R C goal cur (Some kc)) (d # ds) s = u" by (simp add: u_def t_def)
  have 1: "ainv g start goal u" using H by blast
  have mtu: "amono t u" using H by blast
  have 2: "amono s u" using amono_trans[OF F(1) mtu] .
  have 3: "gScore u cur = Some kc" using H by blast
  have 4: "u = s \<or> aprogress u s"
  proof -
    have a: "u = t \<or> aprogress u t" using H by blast
    show ?thesis using a F(3) aprogress_trans[of u t s] by auto
  qed
  have 5: "\<exists>k'. gScore u (fst cur + fst d', snd cur + snd d') = Some k' \<and> k' \<le> kc + 1"
    if d': "d' \<in> set (d # ds)" and fr: "free g (fst cur + fst d', snd cur + snd d')" for d'
  proof (cases "d' \<in> set ds")
    case True
    then show ?thesis using H fr by blast
  next
    case False
    then have e: "d' = d" using d' by simp
    obtain k1 where k1: "gScore t (fst cur + fst d, snd cur + snd d) = Some k1" "k1 \<le> kc + 1"
      using F(4) fr e by blast
    obtain k2 where "gScore u (fst cur + fst d, snd cur + snd d) = Some k2" "k2 \<le> k1"
      using mtu k1(1) unfolding amono_def by blast
    then show ?thesis using k1(2) e by auto
  qed
  show ?case unfolding u using 1 2 3 4 5 by blast
qed

lemma h_step: "step c c' \<Longrightarrow> h goal c \<le> h goal c' + 1"
  by (auto simp: step_def dirs_def h_def)

lemma h_goal: "h goal goal = 0"
  by (simp add: h_def)

lemma h_admissible:
  assumes p: "grid_path g start goal p"
  shows "j < length p \<Longrightarrow> h goal (p ! j) \<le> int (length p - 1 - j)"
proof (induction "length p - 1 - j" arbitrary: j)
  case 0
  then have "j = length p - 1" by simp
  moreover have "last p = goal" "p \<noteq> []" using p by (simp_all add: grid_path_def)
  ultimately have "p ! j = goal" using last_conv_nth[of p] by simp
  then show ?case by (simp add: h_goal)
next
  case (Suc m)
  have sj: "Suc j < length p" using Suc.hyps(2) by simp
  have m: "m = length p - 1 - Suc j" using Suc.hyps(2) by simp
  have "step (p ! j) (p ! Suc j)" using p sj by (simp add: grid_path_def)
  then have "h goal (p ! j) \<le> h goal (p ! Suc j) + 1" by (rule h_step)
  moreover have "h goal (p ! Suc j) \<le> int (length p - 1 - Suc j)" using Suc.hyps(1)[OF m sj] .
  ultimately show ?case using sj by simp
qed

lemma grid_path_single: "free g c \<Longrightarrow> grid_path g c c [c]"
  by (simp add: grid_path_def)

lemma grid_path_snoc:
  assumes p: "grid_path g a q p" and st: "step q c" and fr: "free g c"
  shows "grid_path g a c (p @ [c])"
proof -
  have ne: "p \<noteq> []" and hd: "hd p = a" and la: "last p = q"
    and al: "\<forall>c \<in> set p. free g c"
    and ss: "\<And>j. Suc j < length p \<Longrightarrow> step (p ! j) (p ! Suc j)"
    using p by (simp_all add: grid_path_def)
  have "step ((p @ [c]) ! j) ((p @ [c]) ! Suc j)" if j: "Suc j < length (p @ [c])" for j
  proof (cases "Suc j < length p")
    case True
    then show ?thesis using ss[OF True] by (simp add: nth_append)
  next
    case False
    then have e: "Suc j = length p" using j by simp
    then have "j = length p - 1" by simp
    then have "p ! j = q" using la last_conv_nth[OF ne] by simp
    then show ?thesis using e st by (simp add: nth_append)
  qed
  then show ?thesis using ne hd al fr by (simp add: grid_path_def)
qed

lemma parent_chain:
  assumes I: "ainv g start goal s" and fs: "free g start"
  shows "gScore s c = Some k \<Longrightarrow>
     \<exists>p. grid_path g start c p \<and> int (length p) \<le> k + 1
         \<and> (\<forall>acc. reconstruct (parent s) (Some c) acc = Some (acc @ rev p))"
proof (induction "nat k" arbitrary: c k rule: less_induct)
  case less
  have k0: "0 \<le> k" using ainv_nonneg[OF I less.prems] .
  show ?case
  proof (cases "c = start")
    case True
    have ps: "parent s start = Some None" using I by (simp add: ainv_def)
    have "reconstruct (parent s) (Some start) acc = Some (acc @ rev [start])" for acc
      by (subst reconstruct.simps, simp add: ps, subst reconstruct.simps, simp)
    then show ?thesis using True grid_path_single[OF fs] k0
      by (intro exI[of _ "[start]"]) simp
  next
    case False
    obtain q kq where fc: "free g c" and pc: "parent s c = Some (Some q)" and st: "step q c"
      and gq: "gScore s q = Some kq" and lt: "kq < k"
      using ainv_parent[OF I less.prems False] by blast
    have kq0: "0 \<le> kq" using ainv_nonneg[OF I gq] .
    have "nat kq < nat k" using lt kq0 by simp
    from less.hyps[OF this gq] obtain p where p: "grid_path g start q p"
      "int (length p) \<le> kq + 1"
      "\<And>acc. reconstruct (parent s) (Some q) acc = Some (acc @ rev p)" by blast
    have r: "reconstruct (parent s) (Some c) acc = Some (acc @ rev (p @ [c]))" for acc
      by (subst reconstruct.simps) (simp add: pc p(3))
    show ?thesis
      using grid_path_snoc[OF p(1) st fc] p(2) lt r
      by (intro exI[of _ "p @ [c]"]) simp
  qed
qed

lemma good_zero:
  assumes I: "ainv g start goal s" and p: "grid_path g start goal p"
  shows "good s p 0"
proof -
  have "p \<noteq> []" "hd p = start" using p by (simp_all add: grid_path_def)
  then have "p ! 0 = start" "0 < length p" by (simp_all add: hd_conv_nth)
  then show ?thesis using ainv_start[OF I] by (simp add: good_def)
qed

lemma good_open:
  assumes I: "ainv g start goal s" and K: "kinv g start goal s" and p: "grid_path g start goal p"
  shows "\<exists>j. good s p j \<and> map_of (open_map s) (p ! j) \<noteq> None"
proof -
  have b: "\<forall>y. good s p y \<longrightarrow> id y < length p" by (simp add: good_def)
  obtain j where j: "good s p j" "\<forall>y. good s p y \<longrightarrow> y \<le> j"
    using ex_has_greatest_nat[of "good s p" 0 id, OF good_zero[OF I p] b] by auto
  have "\<not> (\<exists>j'. j < j' \<and> good s p j')" using j(2) by auto
  then have "map_of (open_map s) (p ! j) \<noteq> None"
    using K p j(1) unfolding kinv_def by blast
  then show ?thesis using j(1) by blast
qed

lemma open_bound:
  assumes I: "ainv g start goal s" and K: "kinv g start goal s" and p: "grid_path g start goal p"
  shows "\<exists>c f. map_of (open_map s) c = Some f \<and> f \<le> int (length p) - 1"
proof -
  obtain j f where j: "good s p j" and f: "map_of (open_map s) (p ! j) = Some f"
    using good_open[OF I K p] by blast
  obtain k where k: "gScore s (p ! j) = Some k" "k \<le> int j" and jl: "j < length p"
    using j by (auto simp: good_def)
  obtain k' where "gScore s (p ! j) = Some k'" "f = k' + h goal (p ! j)"
    using ainv_open[OF I f] by blast
  then have fe: "f = k + h goal (p ! j)" using k(1) by simp
  have "h goal (p ! j) \<le> int (length p - 1 - j)" using h_admissible[OF p jl] .
  then have "f \<le> int (length p) - 1" using fe k(2) jl by linarith
  then show ?thesis using f by blast
qed

lemma length_delete_less:
  assumes "map_of es c = Some f"
  shows "length (AList.delete c es) < length es"
proof -
  have "(c, f) \<in> set es" using assms by (rule map_of_SomeD)
  then show ?thesis unfolding AList.delete_eq
    by (intro length_filter_less[of "(c, f)"]) simp_all
qed

lemma ainv_delete:
  assumes I: "ainv g start goal s"
  shows "ainv g start goal (s\<lparr>open_map := AList.delete c (open_map s)\<rparr>)"
proof -
  have d: "distinct (map fst (AList.delete c (open_map s)))"
    using ainv_distinct[OF I] by (rule distinct_delete)
  have o: "\<exists>k. gScore s c' = Some k \<and> f = k + h goal c'"
    if m: "map_of (AList.delete c (open_map s)) c' = Some f" for c' f
  proof -
    have "map_of (open_map s) c' = Some f" using m by (simp add: delete_conv' split: if_splits)
    then show ?thesis by (rule ainv_open[OF I])
  qed
  show ?thesis using I d o unfolding ainv_def by simp
qed

lemma aless_step:
  assumes "s2 = s1 \<or> aprogress s2 s1"
    and "fst (ameasure s1) = fst (ameasure s)"
    and "fst (snd (ameasure s1)) = fst (snd (ameasure s))"
    and "snd (snd (ameasure s1)) < snd (snd (ameasure s))"
  shows "(s2, s) \<in> aless"
  using assms
  by (cases "ameasure s"; cases "ameasure s1"; cases "ameasure s2")
     (auto simp: aprogress_def aless_def)

lemma good_mono: "amono s s' \<Longrightarrow> good s p j \<Longrightarrow> good s' p j"
  unfolding amono_def good_def by (meson order_trans)

lemma astar_iter:
  assumes rect: "rectangular g" and RC: "R = length g" "C = length (g ! 0)"
    and I: "ainv g start goal s" and K: "kinv g start goal s"
    and cur: "map_of (open_map s) cur = Some f" and ng: "cur \<noteq> goal"
  defines "s1 \<equiv> s\<lparr>open_map := AList.delete cur (open_map s)\<rparr>"
  shows "\<exists>kc. gScore s1 cur = Some kc
           \<and> ainv g start goal (fold (expand R C goal cur (Some kc)) dirs s1)
           \<and> kinv g start goal (fold (expand R C goal cur (Some kc)) dirs s1)
           \<and> (fold (expand R C goal cur (Some kc)) dirs s1, s) \<in> aless"
proof -
  obtain kc where kc: "gScore s cur = Some kc" using ainv_open[OF I cur] by blast
  have g1: "gScore s1 cur = Some kc" using kc by (simp add: s1_def)
  have I1: "ainv g start goal s1" unfolding s1_def by (rule ainv_delete[OF I])
  define s2 where "s2 = fold (expand R C goal cur (Some kc)) dirs s1"
  note F = fold_expand_facts[OF rect RC I1 g1 subset_refl, folded s2_def]
  have I2: "ainv g start goal s2" and M: "amono s1 s2" and P: "s2 = s1 \<or> aprogress s2 s1"
    using F by blast+
  have N: "\<exists>k'. gScore s2 (fst cur + fst d, snd cur + snd d) = Some k' \<and> k' \<le> kc + 1"
    if d: "d \<in> set dirs" and fr: "free g (fst cur + fst d, snd cur + snd d)" for d
    using F d fr by blast
  have L: "(s2, s) \<in> aless"
  proof (rule aless_step[OF P])
    show "fst (ameasure s1) = fst (ameasure s)" by (simp add: ameasure_def s1_def)
    show "fst (snd (ameasure s1)) = fst (snd (ameasure s))" by (simp add: ameasure_def s1_def)
    show "snd (snd (ameasure s1)) < snd (snd (ameasure s))"
      using length_delete_less[OF cur] by (simp add: ameasure_def s1_def)
  qed
  have K2: "kinv g start goal s2"
    unfolding kinv_def
  proof (intro allI impI)
    fix p j
    assume p: "grid_path g start goal p" and gj: "good s2 p j"
    show "map_of (open_map s2) (p ! j) \<noteq> None \<or> (\<exists>j'. j < j' \<and> good s2 p j')"
    proof (cases "gScore s2 (p ! j) = gScore s1 (p ! j)")
      case False
      then show ?thesis using M unfolding amono_def by blast
    next
      case True
      then have "gScore s2 (p ! j) = gScore s (p ! j)" by (simp add: s1_def)
      then have gs: "good s p j" using gj by (simp add: good_def)
      have jl: "j < length p" using gs by (simp add: good_def)
      consider (later) j' where "j < j'" "good s p j'"
        | (opn) "map_of (open_map s) (p ! j) \<noteq> None"
        using K p gs unfolding kinv_def by blast
      then show ?thesis
      proof cases
        case later
        have "good s1 p j'" using later(2) by (simp add: good_def s1_def)
        then have "good s2 p j'" by (rule good_mono[OF M])
        then show ?thesis using later(1) by blast
      next
        case opn
        show ?thesis
        proof (cases "p ! j = cur")
          case False
          then have "map_of (open_map s1) (p ! j) \<noteq> None"
            using opn by (simp add: s1_def delete_conv')
          then show ?thesis using M unfolding amono_def by blast
        next
          case True
          have ne: "p \<noteq> []" and la: "last p = goal"
            and fa: "\<forall>c \<in> set p. free g c"
            and ss: "\<And>i. Suc i < length p \<Longrightarrow> step (p ! i) (p ! Suc i)"
            using p by (simp_all add: grid_path_def)
          have "p ! (length p - 1) = goal" using la last_conv_nth[OF ne] by simp
          then have "j \<noteq> length p - 1" using True ng by auto
          then have sj: "Suc j < length p" using jl by simp
          obtain d where d: "d \<in> set dirs"
            and e: "p ! Suc j = (fst cur + fst d, snd cur + snd d)"
            using ss[OF sj] True unfolding step_def by blast
          have "free g (p ! Suc j)" using fa sj by simp
          then obtain k' where k': "gScore s2 (p ! Suc j) = Some k'" "k' \<le> kc + 1"
            using N[OF d] e by auto
          have "kc \<le> int j" using gs kc True by (simp add: good_def)
          then have "good s2 p (Suc j)" using k' sj by (simp add: good_def)
          then show ?thesis by blast
        qed
      qed
    qed
  qed
  show ?thesis using g1 I2 K2 L unfolding s2_def by blast
qed

lemma astar_loop_correct:
  assumes rect: "rectangular g" and RC: "R = length g" "C = length (g ! 0)"
    and fs: "free g start"
  shows "ainv g start goal s \<Longrightarrow> kinv g start goal s \<Longrightarrow>
     (\<exists>p s'. astar_loop R C goal s = Some (Some p, s') \<and> grid_path g start goal p
         \<and> (\<forall>p'. grid_path g start goal p' \<longrightarrow> length p \<le> length p'))
     \<or> (\<exists>s'. astar_loop R C goal s = Some (None, s') \<and> (\<forall>p'. \<not> grid_path g start goal p'))"
proof (induction s rule: wf_induct_rule[OF wf_aless])
  case (1 s)
  note I = "1.prems"(1) and K = "1.prems"(2)
  show ?case
  proof (cases "open_map s = []")
    case True
    have r: "astar_loop R C goal s = Some (None, s)"
      by (subst astar_loop.simps) (simp add: True)
    have "\<not> grid_path g start goal p'" for p'
    proof
      assume "grid_path g start goal p'"
      from good_open[OF I K this] show False by (simp add: True)
    qed
    then show ?thesis using r by blast
  next
    case False
    obtain cur f where sc: "fst (scan_open (open_map s)) = Some cur"
      and cf: "map_of (open_map s) cur = Some f"
      and mn: "\<And>c' f'. map_of (open_map s) c' = Some f' \<Longrightarrow> f \<le> f'"
      using scan_open_map_of[OF False ainv_distinct[OF I]] by blast
    show ?thesis
    proof (cases "cur = goal")
      case True
      obtain kg where kg: "gScore s goal = Some kg" "f = kg + h goal goal"
        using ainv_open[OF I cf] True by blast
      obtain p where p: "grid_path g start goal p" "int (length p) \<le> kg + 1"
        "\<And>acc. reconstruct (parent s) (Some goal) acc = Some (acc @ rev p)"
        using parent_chain[OF I fs kg(1)] by blast
      have r: "astar_loop R C goal s
                 = Some (Some p, s\<lparr>open_map := AList.delete cur (open_map s)\<rparr>)"
        by (subst astar_loop.simps) (simp add: False sc True p(3))
      have "length p \<le> length p'" if p': "grid_path g start goal p'" for p'
      proof -
        obtain c f' where c: "map_of (open_map s) c = Some f'" "f' \<le> int (length p') - 1"
          using open_bound[OF I K p'] by blast
        have "f \<le> int (length p') - 1" using mn[OF c(1)] c(2) by linarith
        then show ?thesis using kg(2) p(2) by (simp add: h_goal)
      qed
      then show ?thesis using r p(1) by blast
    next
      case ng: False
      define s1 where "s1 = s\<lparr>open_map := AList.delete cur (open_map s)\<rparr>"
      obtain kc where kc: "gScore s1 cur = Some kc"
        and I2: "ainv g start goal (fold (expand R C goal cur (Some kc)) dirs s1)"
        and K2: "kinv g start goal (fold (expand R C goal cur (Some kc)) dirs s1)"
        and L: "(fold (expand R C goal cur (Some kc)) dirs s1, s) \<in> aless"
        using astar_iter[OF rect RC I K cf ng, folded s1_def] by blast
      have r: "astar_loop R C goal s
                 = astar_loop R C goal (fold (expand R C goal cur (Some kc)) dirs s1)"
        using kc by (subst astar_loop.simps) (simp add: False sc ng s1_def)
      show ?thesis unfolding r by (rule "1.IH"[OF L I2 K2])
    qed
  qed
qed

lemma ainv_init: "ainv g start goal (astar_init start goal g)"
  unfolding ainv_def astar_init_def by (simp split: if_splits)

lemma kinv_init: "kinv g start goal (astar_init start goal g)"
  unfolding kinv_def good_def astar_init_def by (auto split: if_splits)

lemma astarGrid_unfold:
  assumes "g \<noteq> []"
  shows "astarGrid start goal g
     = map_option (\<lambda>r. Inr (fst r))
         (astar_loop (length g) (length (g ! 0)) goal (astar_init start goal g))"
  using assms by (cases g) (simp_all add: astarGrid_def astar_run_def option.map_comp comp_def)

text \<open>
  C2. On a rectangular grid and a free start cell within it, \<open>astarGrid\<close> returns: it
  either returns a list of cells that begins at \<open>start\<close>, ends at \<open>goal\<close>, holds free cells
  only, moves by one cardinal unit step between consecutive cells, and is no longer than
  any other such list (so its length is the breadth-first distance), or it returns \<open>null\<close>
  and no such list exists. A goal that is not free falls under the second case, so the
  goal needs no hypothesis.
\<close>

theorem astar_shortest_path:
  assumes "rectangular g" and "free g start"
  shows "(\<exists>p. astarGrid start goal g = Some (Inr (Some p)) \<and> grid_path g start goal p
            \<and> (\<forall>p'. grid_path g start goal p' \<longrightarrow> length p \<le> length p'))
       \<or> (astarGrid start goal g = Some (Inr None) \<and> (\<forall>p'. \<not> grid_path g start goal p'))"
proof -
  have ne: "g \<noteq> []" using assms(2) by (auto simp: free_def)
  note L = astar_loop_correct[OF assms(1) refl refl assms(2) ainv_init kinv_init, of goal]
  show ?thesis unfolding astarGrid_unfold[OF ne] using L by auto
qed

theorem astar_shortest_path_witness:
  "rectangular grid4 \<and> free grid4 (0, 0)
   \<and> astarGrid (0, 0) (3, 3) grid4
       = Some (Inr (Some [(0, 0), (1, 0), (2, 0), (3, 0), (3, 1), (3, 2), (3, 3)]))
   \<and> grid_path grid4 (0, 0) (3, 3) [(0, 0), (1, 0), (2, 0), (3, 0), (3, 1), (3, 2), (3, 3)]
   \<and> \<not> (\<exists>p'. grid_path grid4 (0, 0) (3, 3) p' \<and> length p' < 7)
   \<and> rectangular [[0, 1], [1, 0]] \<and> free [[0, 1], [1, 0]] (0, 0)
   \<and> astarGrid (0, 0) (1, 1) [[0, 1], [1, 0]] = Some (Inr None)
   \<and> \<not> (\<exists>p'. grid_path [[0, 1], [1, 0]] (0, 0) (1, 1) p')"
proof -
  have r: "rectangular grid4" by (simp add: rectangular_def grid4_def)
  have f: "free grid4 (0, 0)" by (simp add: free_def grid4_def)
  have e: "astarGrid (0, 0) (3, 3) grid4
       = Some (Inr (Some [(0, 0), (1, 0), (2, 0), (3, 0), (3, 1), (3, 2), (3, 3)]))"
    by code_simp
  have r2: "rectangular [[0, 1], [1, 0]]" by (simp add: rectangular_def)
  have f2: "free [[0, 1], [1, 0]] (0, 0)" by (simp add: free_def)
  have e2: "astarGrid (0, 0) (1, 1) [[0, 1], [1, 0]] = Some (Inr None)"
    by code_simp
  note A = astar_shortest_path[OF r f, of "(3, 3)"]
  note B = astar_shortest_path[OF r2 f2, of "(1, 1)"]
  have a: "grid_path grid4 (0, 0) (3, 3) [(0, 0), (1, 0), (2, 0), (3, 0), (3, 1), (3, 2), (3, 3)]"
    and a': "\<not> (\<exists>p'. grid_path grid4 (0, 0) (3, 3) p' \<and> length p' < 7)"
    using A unfolding e by (simp, fastforce)
  have b: "\<not> (\<exists>p'. grid_path [[0, 1], [1, 0]] (0, 0) (1, 1) p')"
    using B unfolding e2 by simp
  show ?thesis using r f e a a' r2 f2 e2 b by simp
qed

end
